theory Spec2Isabelle
  imports Main "HOL-Library.Multiset"
begin

section \<open>Vectors, errors and results\<close>

text \<open>
  The program works on \<open>std::vector<int>\<close>. Elements are only compared and moved,
  never added, so an element is modelled by its value, an \<open>int\<close>. An index is a C++
  \<open>int\<close> and is modelled as \<open>int\<close> where it can be negative (\<open>start\<close>, \<open>end\<close>,
  written \<open>stop\<close> here, and \<open>size\<close>) and as \<open>nat\<close> for counters that start at 0.

  Vectors are taken to be short enough that no index computation leaves the range of \<open>int\<close>.

  Reading or writing a vector outside \<open>0 .. size-1\<close> is undefined behaviour in C++; the
  model makes it the error \<open>OutOfRange\<close>. A run that never ends has no result at all,
  which is \<open>None\<close>: a result is of type \<open>(error + 'a) option\<close>.
\<close>

datatype error = OutOfRange

definition in_vec :: "'a list \<Rightarrow> int \<Rightarrow> bool" where
  "in_vec v i \<longleftrightarrow> 0 \<le> i \<and> i < int (length v)"

definition vec_at :: "'a list \<Rightarrow> int \<Rightarrow> error + 'a" where
  "vec_at v i = (if in_vec v i then Inr (v ! nat i) else Inl OutOfRange)"

definition bindE :: "error + 'a \<Rightarrow> ('a \<Rightarrow> error + 'b) \<Rightarrow> error + 'b" where
  "bindE m f = (case m of Inl e \<Rightarrow> Inl e | Inr v \<Rightarrow> f v)"

definition bindR :: "(error + 'a) option \<Rightarrow> ('a \<Rightarrow> (error + 'b) option) \<Rightarrow> (error + 'b) option" where
  "bindR m f = (case m of None \<Rightarrow> None | Some (Inl e) \<Rightarrow> Some (Inl e) | Some (Inr v) \<Rightarrow> f v)"

text \<open>A \<open>for\<close> loop over the indices \<open>is\<close> whose body may fail: it stops at the first error.\<close>

fun foldE :: "('i \<Rightarrow> 's \<Rightarrow> error + 's) \<Rightarrow> 'i list \<Rightarrow> 's \<Rightarrow> error + 's" where
  "foldE f [] s = Inr s"
| "foldE f (i # is) s = (case f i s of Inl e \<Rightarrow> Inl e | Inr s' \<Rightarrow> foldE f is s')"

text \<open>The inclusive subrange \<open>[start, stop]\<close> of a vector.\<close>

definition subrange :: "'a list \<Rightarrow> int \<Rightarrow> int \<Rightarrow> 'a list" where
  "subrange arr start stop = take (nat (stop - start + 1)) (drop (nat start) arr)"

definition in_bounds :: "'a list \<Rightarrow> int \<Rightarrow> int \<Rightarrow> bool" where
  "in_bounds arr start stop \<longleftrightarrow> 0 \<le> start \<and> stop < int (length arr)"

section \<open>1) Bidirectional triple pass\<close>

text \<open>
  One statement \<open>if (arr[i] > arr[i + 1]) { std::swap(arr[i], arr[i + 1]); changed = true; }\<close>
  on the state \<open>(arr, changed)\<close>.
\<close>

definition swap_if_greater :: "int \<Rightarrow> int list \<times> bool \<Rightarrow> error + int list \<times> bool" where
  "swap_if_greater i st =
     (case st of (arr, changed) \<Rightarrow>
        if in_vec arr i \<and> in_vec arr (i + 1) then
          (if arr ! nat i > arr ! nat (i + 1)
           then Inr (arr[nat i := arr ! nat (i + 1), nat (i + 1) := arr ! nat i], True)
           else Inr (arr, changed))
        else Inl OutOfRange)"

text \<open>The body of both \<open>for\<close> loops: three compare-and-swap statements on \<open>i, i+1, i+2\<close>.\<close>

definition triple_fix :: "int \<Rightarrow> int list \<times> bool \<Rightarrow> error + int list \<times> bool" where
  "triple_fix i st =
     bindE (swap_if_greater i st) (\<lambda>st.
     bindE (swap_if_greater (i + 1) st) (\<lambda>st.
     swap_if_greater i st))"

text \<open>\<open>for (int i = start; i + 2 <= end; i++)\<close> and \<open>for (int i = end - 2; i >= start; i--)\<close>.\<close>

definition forward_pass :: "int \<Rightarrow> int \<Rightarrow> int list \<times> bool \<Rightarrow> error + int list \<times> bool" where
  "forward_pass start stop st = foldE triple_fix [start..stop - 2] st"

definition backward_pass :: "int \<Rightarrow> int \<Rightarrow> int list \<times> bool \<Rightarrow> error + int list \<times> bool" where
  "backward_pass start stop st = foldE triple_fix (rev [start..stop - 2]) st"

text \<open>One turn of the \<open>while\<close> loop: \<open>changed = false\<close>, the forward pass, the backward pass.\<close>

definition fix_cycle :: "int \<Rightarrow> int \<Rightarrow> int list \<Rightarrow> error + int list \<times> bool" where
  "fix_cycle start stop arr =
     bindE (forward_pass start stop (arr, False)) (backward_pass start stop)"

text \<open>
  \<open>while (changed) { ... }\<close>, entered with \<open>changed = true\<close>. Nothing in the definition
  says that the loop ends: a run that goes on forever is \<open>None\<close>.
\<close>

partial_function (option) fix_loop :: "int \<Rightarrow> int \<Rightarrow> int list \<Rightarrow> (error + int list) option" where
  "fix_loop start stop arr =
     (case fix_cycle start stop arr of
        Inl e \<Rightarrow> Some (Inl e)
      | Inr (arr', changed) \<Rightarrow> if changed then fix_loop start stop arr' else Some (Inr arr'))"

declare fix_loop.simps [code]

definition alpayTripleFixBidirectional :: "int list \<Rightarrow> int \<Rightarrow> int \<Rightarrow> (error + int list) option" where
  "alpayTripleFixBidirectional arr start stop =
     (if start \<ge> stop then Some (Inr arr)
      else if stop - start = 1 then
        Some (bindE (swap_if_greater start (arr, False)) (\<lambda>(arr', changed). Inr arr'))
      else fix_loop start stop arr)"

text \<open>
  The number of inversions of a list: the pairs of positions \<open>i < j\<close> whose elements are in
  the wrong order, \<open>xs ! i > xs ! j\<close>.
\<close>

fun inversions :: "int list \<Rightarrow> nat" where
  "inversions [] = 0"
| "inversions (x # xs) = length (filter (\<lambda>y. x > y) xs) + inversions xs"

section \<open>2) Pivot array sort\<close>

definition alpayTripleSortPivotArray :: "int list \<Rightarrow> (error + int list) option" where
  "alpayTripleSortPivotArray pivots =
     alpayTripleFixBidirectional pivots 0 (int (length pivots) - 1)"

section \<open>3) Min-heap-based k-way merge\<close>

record HeapItem =
  val :: int
  bIndex :: nat
  iIndex :: nat

text \<open>
  \<open>std::priority_queue<HeapItem, std::vector<HeapItem>, std::greater<HeapItem>>\<close> compares
  items by \<open>value\<close> alone (the field is \<open>val\<close> here). The library promises that \<open>top()\<close> is
  an item with no smaller one in the queue; which of several items of the same least value
  it is depends on the library and on the order of the earlier pushes and pops. The model
  keeps the items of the queue in a list and leaves that choice to a parameter \<open>tie\<close>:
  \<open>tie n h\<close> is any number, and the item on top is the one at position
  \<open>tie n h mod length c\<close> of the list \<open>c\<close> of least items, where \<open>n\<close> is the number of items
  popped so far. Every choice of a least item is some \<open>tie\<close>, and every \<open>tie\<close> is a choice
  of a least item.
\<close>

definition least_items :: "HeapItem list \<Rightarrow> HeapItem list" where
  "least_items h = filter (\<lambda>x. \<forall>y \<in> set h. val x \<le> val y) h"

definition heap_top :: "(HeapItem list \<Rightarrow> nat) \<Rightarrow> HeapItem list \<Rightarrow> HeapItem" where
  "heap_top pick h = (let c = least_items h in c ! (pick h mod length c))"

definition heap_pop :: "(HeapItem list \<Rightarrow> nat) \<Rightarrow> HeapItem list \<Rightarrow> HeapItem list" where
  "heap_pop pick h = remove1 (heap_top pick h) h"

definition heap_push :: "HeapItem \<Rightarrow> HeapItem list \<Rightarrow> HeapItem list" where
  "heap_push x h = h @ [x]"

text \<open>The number of bucket elements that the items of the queue still stand for.\<close>

definition pending :: "int list list \<Rightarrow> HeapItem list \<Rightarrow> nat" where
  "pending buckets h = sum_list (map (\<lambda>x. Suc (length (buckets ! bIndex x) - iIndex x)) h)"

lemma least_items_nonempty: "h \<noteq> [] \<Longrightarrow> least_items h \<noteq> []"
proof -
  assume ne: "h \<noteq> []"
  define m where "m = Min (val ` set h)"
  have "m \<in> val ` set h"
    unfolding m_def using ne by (intro Min_in) auto
  then obtain x where x: "x \<in> set h" "val x = m" by auto
  have "\<forall>y \<in> set h. val x \<le> val y"
    using x unfolding m_def by (auto intro: Min_le)
  with x have "x \<in> set (least_items h)"
    by (simp add: least_items_def)
  then show ?thesis by auto
qed

lemma heap_top_least: "h \<noteq> [] \<Longrightarrow> heap_top pick h \<in> set (least_items h)"
  using least_items_nonempty [of h] by (simp add: heap_top_def Let_def)

lemma heap_top_in: "h \<noteq> [] \<Longrightarrow> heap_top pick h \<in> set h"
  using heap_top_least [of h pick] by (simp add: least_items_def)

lemma heap_top_le: "h \<noteq> [] \<Longrightarrow> y \<in> set h \<Longrightarrow> val (heap_top pick h) \<le> val y"
  using heap_top_least [of h pick] by (simp add: least_items_def)

lemma pending_pop:
  "h \<noteq> [] \<Longrightarrow>
   pending buckets h =
     Suc (length (buckets ! bIndex (heap_top pick h)) - iIndex (heap_top pick h))
     + pending buckets (heap_pop pick h)"
  unfolding pending_def heap_pop_def
  using heap_top_in [of h pick] by (simp add: sum_list_map_remove1)

lemma pending_push:
  "pending buckets (heap_push x h) = pending buckets h + Suc (length (buckets ! bIndex x) - iIndex x)"
  by (simp add: pending_def heap_push_def)

text \<open>
  The \<open>while (!minHeap.empty())\<close> loop. \<open>buckets[top.bIndex]\<close> is within range in every
  run, since the items of the queue are made from positions of \<open>buckets\<close>.
\<close>

function merge_loop ::
  "(nat \<Rightarrow> HeapItem list \<Rightarrow> nat) \<Rightarrow> int list list \<Rightarrow> HeapItem list \<Rightarrow> int list \<Rightarrow> int list" where
  "merge_loop tie buckets minHeap dest =
     (if minHeap = [] then dest
      else
        let top = heap_top (tie (length dest)) minHeap;
            popped = heap_pop (tie (length dest)) minHeap;
            dest' = dest @ [val top];
            nextIndex = iIndex top + 1
        in if nextIndex < length (buckets ! bIndex top)
           then merge_loop tie buckets
                  (heap_push \<lparr>val = buckets ! bIndex top ! nextIndex,
                              bIndex = bIndex top, iIndex = nextIndex\<rparr> popped) dest'
           else merge_loop tie buckets popped dest')"
  by pat_completeness auto
termination
proof (relation "measure (\<lambda>(tie, buckets, minHeap, dest). pending buckets minHeap)")
  show "wf (measure (\<lambda>(tie, buckets, minHeap, dest). pending buckets minHeap))"
    by simp
next
  fix tie :: "nat \<Rightarrow> HeapItem list \<Rightarrow> nat" and buckets :: "int list list"
    and minHeap :: "HeapItem list" and dest x xa xb :: "int list" and xc :: nat
    and top popped
  assume "minHeap \<noteq> []" and "top = heap_top (tie (length dest)) minHeap"
    and "popped = heap_pop (tie (length dest)) minHeap"
    and "xc = iIndex top + 1" and "xc < length (buckets ! bIndex top)"
  then show "((tie, buckets,
        heap_push \<lparr>val = buckets ! bIndex top ! xc, bIndex = bIndex top, iIndex = xc\<rparr> popped, xb),
       tie, buckets, minHeap, dest) \<in> measure (\<lambda>(tie, buckets, minHeap, dest). pending buckets minHeap)"
    using pending_pop [of minHeap buckets "tie (length dest)"]
    by (simp add: pending_push)
next
  fix tie :: "nat \<Rightarrow> HeapItem list \<Rightarrow> nat" and buckets :: "int list list"
    and minHeap :: "HeapItem list" and dest x xa xb :: "int list" and xc :: nat
    and top popped
  assume "minHeap \<noteq> []" and "popped = heap_pop (tie (length dest)) minHeap"
  then show "((tie, buckets, popped, xb), tie, buckets, minHeap, dest)
       \<in> measure (\<lambda>(tie, buckets, minHeap, dest). pending buckets minHeap)"
    using pending_pop [of minHeap buckets "tie (length dest)"]
    by simp
qed

declare merge_loop.simps [simp del]

text \<open>
  The first loop: the first item of each non-empty bucket is pushed. (\<open>total\<close> only sizes
  the \<open>reserve\<close> call, which does not change the contents of \<open>dest\<close>.)
\<close>

definition initial_heap :: "int list list \<Rightarrow> HeapItem list" where
  "initial_heap buckets =
     fold (\<lambda>b minHeap.
             if buckets ! b \<noteq> []
             then heap_push \<lparr>val = buckets ! b ! 0, bIndex = b, iIndex = 0\<rparr> minHeap
             else minHeap)
          [0..<length buckets] []"

definition vec_clear :: "int list \<Rightarrow> int list" where
  "vec_clear dest = []"

definition alpayMultiBucketMerge ::
  "(nat \<Rightarrow> HeapItem list \<Rightarrow> nat) \<Rightarrow> int list list \<Rightarrow> int list \<Rightarrow> int list" where
  "alpayMultiBucketMerge tie buckets dest =
     (let minHeap = initial_heap buckets;
          dest = vec_clear dest
      in merge_loop tie buckets minHeap dest)"

section \<open>4) Alpay's advanced fractal sort\<close>

definition ALPAY_SMALL_THRESH :: int where
  "ALPAY_SMALL_THRESH = 12"

text \<open>
  The three \<open>double\<close> computations of the source, on the values an \<open>int\<close> can hold:
  \<open>(int)std::sqrt((double)size)\<close> is the integer square root of \<open>size\<close>,
  \<open>(int)(pivotCount * PIVOT_SAMPLE_FACTOR)\<close> is \<open>2 * pivotCount\<close>, and
  \<open>(int)(PIVOT_OUTLIER_FRAC * samples.size())\<close> is \<open>15 * n div 100\<close> for the sample sizes
  \<open>n\<close> that occur (at most twice the square root of the largest \<open>int\<close>).
\<close>

primrec isqrt :: "nat \<Rightarrow> nat" where
  "isqrt 0 = 0"
| "isqrt (Suc n) = (let r = isqrt n in if (r + 1) * (r + 1) \<le> Suc n then r + 1 else r)"

definition pivot_count :: "int \<Rightarrow> nat" where
  "pivot_count sz = max 2 (isqrt (nat sz))"

definition pivot_sample_count :: "nat \<Rightarrow> nat" where
  "pivot_sample_count pivotCount = max pivotCount (2 * pivotCount)"

definition outlier_cut :: "nat \<Rightarrow> nat" where
  "outlier_cut n = 15 * n div 100"

text \<open>
  \<open>rand()\<close> is a sequence \<open>draws\<close> of non-negative numbers, given from outside, and the
  number \<open>k\<close> of draws made so far; the \<open>k\<close>-th call returns \<open>draws k\<close>.
  The sampling loop runs \<open>n\<close> more times.
\<close>

fun gather_samples ::
  "(nat \<Rightarrow> nat) \<Rightarrow> int list \<Rightarrow> int \<Rightarrow> int \<Rightarrow> nat \<Rightarrow> int list \<Rightarrow> nat \<Rightarrow> error + int list \<times> nat" where
  "gather_samples draws arr start sz 0 samples k = Inr (samples, k)"
| "gather_samples draws arr start sz (Suc n) samples k =
     (let rIndex = start + int (draws k) mod sz
      in case vec_at arr rIndex of
           Inl e \<Rightarrow> Inl e
         | Inr x \<Rightarrow> gather_samples draws arr start sz n (samples @ [x]) (k + 1))"

text \<open>Discard top/bottom outliers: the two \<open>erase\<close> calls, under their guard.\<close>

definition discard_outliers :: "int list \<Rightarrow> nat \<Rightarrow> int list" where
  "discard_outliers samples pivotCount =
     (let cut = outlier_cut (length samples)
      in if int cut * 2 < int (length samples) - int pivotCount
         then (let erased = drop cut samples in take (length erased - cut) erased)
         else samples)"

definition pivot_step :: "int list \<Rightarrow> nat \<Rightarrow> nat" where
  "pivot_step samples pivotCount = max 1 (length samples div pivotCount)"

text \<open>\<open>for (int i = 0; i < pivotCount; i++) pivots.push_back(samples[i * step]);\<close>\<close>

definition pick_pivots :: "int list \<Rightarrow> nat \<Rightarrow> nat \<Rightarrow> error + int list" where
  "pick_pivots samples step pivotCount =
     foldE (\<lambda>i pivots. bindE (vec_at samples (int (i * step))) (\<lambda>x. Inr (pivots @ [x])))
           [0..<pivotCount] []"

text \<open>\<open>while (b < pivotCount && x >= pivots[b]) b++;\<close>\<close>

function find_bucket :: "nat \<Rightarrow> int list \<Rightarrow> int \<Rightarrow> nat \<Rightarrow> error + nat" where
  "find_bucket pivotCount pivots x b =
     (if b < pivotCount then
        (case vec_at pivots (int b) of
           Inl e \<Rightarrow> Inl e
         | Inr p \<Rightarrow> if x \<ge> p then find_bucket pivotCount pivots x (b + 1) else Inr b)
      else Inr b)"
  by pat_completeness auto
termination
  by (relation "measure (\<lambda>(pivotCount, pivots, x, b). pivotCount - b)") auto

declare find_bucket.simps [simp del]

text \<open>
  Distribute elements: \<open>buckets\<close> starts as \<open>pivotCount + 1\<close> empty vectors, and each
  element of the range is appended to the bucket that the \<open>while\<close> loop finds. That
  bucket index is at most \<open>pivotCount\<close>, so \<open>buckets[b]\<close> is within range.
\<close>

definition distribute :: "nat \<Rightarrow> int list \<Rightarrow> int list \<Rightarrow> int \<Rightarrow> int \<Rightarrow> error + int list list" where
  "distribute pivotCount pivots arr start stop =
     foldE (\<lambda>i buckets.
              bindE (vec_at arr i) (\<lambda>x.
              bindE (find_bucket pivotCount pivots x 0) (\<lambda>b.
              Inr (buckets[b := buckets ! b @ [x]]))))
           [start..stop] (replicate (pivotCount + 1) [])"

text \<open>
  Recursively sort each bucket: \<open>sorter\<close> stands for the recursive call on a whole bucket,
  and the count of draws goes from one call to the next.
\<close>

fun sort_buckets ::
  "(int list \<Rightarrow> nat \<Rightarrow> (error + int list \<times> nat) option) \<Rightarrow> int list list \<Rightarrow> nat
   \<Rightarrow> (error + int list list \<times> nat) option" where
  "sort_buckets sorter [] k = Some (Inr ([], k))"
| "sort_buckets sorter (bucket # buckets) k =
     (if int (length bucket) > 1
      then bindR (sorter bucket k) (\<lambda>(bucket', k').
           bindR (sort_buckets sorter buckets k') (\<lambda>(buckets', k'').
           Some (Inr (bucket' # buckets', k''))))
      else bindR (sort_buckets sorter buckets k) (\<lambda>(buckets', k').
           Some (Inr (bucket # buckets', k'))))"

text \<open>Copy merged result: \<open>arr[start + i] = mergedAll[i]\<close> for every position of \<open>mergedAll\<close>.\<close>

definition copy_back :: "int list \<Rightarrow> int \<Rightarrow> int list \<Rightarrow> error + int list" where
  "copy_back arr start mergedAll =
     foldE (\<lambda>i arr. if in_vec arr (start + int i)
                     then Inr (arr[nat (start + int i) := mergedAll ! i])
                     else Inl OutOfRange)
           [0..<length mergedAll] arr"

text \<open>
  The driver. \<open>fuel\<close> bounds the depth of the recursion below this call: the terminal case
  needs none, and a call that would recurse with no fuel left has no result (\<open>None\<close>).
  The result is the vector and the count of draws.
\<close>

fun alpayFractalSortAdvanced ::
  "(nat \<Rightarrow> nat) \<Rightarrow> (nat \<Rightarrow> HeapItem list \<Rightarrow> nat) \<Rightarrow> nat \<Rightarrow> int list \<Rightarrow> int \<Rightarrow> int \<Rightarrow> nat
   \<Rightarrow> (error + int list \<times> nat) option" where
  "alpayFractalSortAdvanced draws tie fuel arr start stop k =
     (let sz = stop - start + 1 in
      if sz \<le> ALPAY_SMALL_THRESH then
        bindR (alpayTripleFixBidirectional arr start stop) (\<lambda>arr'. Some (Inr (arr', k)))
      else
        (case fuel of
           0 \<Rightarrow> None
         | Suc fuel' \<Rightarrow>
            (let pivotCount = pivot_count sz;
                 pivotSampleCount = pivot_sample_count pivotCount
             in bindR (Some (gather_samples draws arr start sz pivotSampleCount [] k))
                  (\<lambda>(samples, k).
                bindR (alpayTripleFixBidirectional samples 0 (int (length samples) - 1))
                  (\<lambda>samples.
                let samples = discard_outliers samples pivotCount;
                    step = pivot_step samples pivotCount
                in bindR (Some (pick_pivots samples step pivotCount)) (\<lambda>pivots.
                bindR (alpayTripleSortPivotArray pivots) (\<lambda>pivots.
                bindR (Some (distribute pivotCount pivots arr start stop)) (\<lambda>buckets.
                bindR (sort_buckets
                         (\<lambda>bucket k. alpayFractalSortAdvanced draws tie fuel' bucket 0
                                        (int (length bucket) - 1) k)
                         buckets k)
                  (\<lambda>(buckets, k).
                let mergedAll = alpayMultiBucketMerge tie buckets []
                in bindR (Some (copy_back arr start mergedAll)) (\<lambda>arr'.
                Some (Inr (arr', k))))))))))))"

declare alpayFractalSortAdvanced.simps [simp del]

text \<open>
  The bucket of a value as the specification words it: the number of pivots less than or
  equal to the value. (The code looks for the first pivot above the value, \<open>find_bucket\<close>.)
\<close>

definition pivots_at_most :: "int list \<Rightarrow> int \<Rightarrow> nat" where
  "pivots_at_most pivots x = length (filter (\<lambda>p. p \<le> x) pivots)"

section \<open>Properties of the bidirectional triple pass\<close>

text \<open>
  What a run of compare-and-swap statements does to the range \<open>xs\<close> and the flag: the
  length and the elements stay, each swap removes one inversion and sets the flag, and a
  flag that is still unset means that nothing was swapped.
\<close>

definition progress :: "int list \<times> bool \<Rightarrow> int list \<times> bool \<Rightarrow> bool" where
  "progress st st' \<longleftrightarrow>
     (case st of (xs, changed) \<Rightarrow> case st' of (xs', changed') \<Rightarrow>
        length xs' = length xs \<and> mset xs' = mset xs
        \<and> inversions xs' + (if changed' then 1 else 0) \<le> inversions xs + (if changed then 1 else 0)
        \<and> (changed \<longrightarrow> changed') \<and> (\<not> changed' \<longrightarrow> xs' = xs))"

lemma progress_refl: "progress st st"
  by (cases st) (simp add: progress_def)

lemma progress_trans: "progress a b \<Longrightarrow> progress b c \<Longrightarrow> progress a c"
  by (cases a; cases b; cases c) (auto simp: progress_def)

lemma filter_length_mset: "mset xs = mset ys \<Longrightarrow> length (filter P xs) = length (filter P ys)"
  by (metis mset_filter size_mset)

lemma inversions_swap_adjacent:
  "Suc j < length xs \<Longrightarrow> xs ! j > xs ! Suc j \<Longrightarrow>
   Suc (inversions (xs[j := xs ! Suc j, Suc j := xs ! j])) = inversions xs"
proof (induction xs arbitrary: j)
  case Nil
  then show ?case by simp
next
  case (Cons a xs)
  show ?case
  proof (cases j)
    case 0
    with Cons.prems obtain b ys where xs: "xs = b # ys" by (cases xs) auto
    with 0 Cons.prems show ?thesis by auto
  next
    case (Suc j')
    with Cons.prems have j': "Suc j' < length xs" "xs ! j' > xs ! Suc j'" by auto
    have m: "mset (xs[j' := xs ! Suc j', Suc j' := xs ! j']) = mset xs"
      using j' by (simp add: mset_swap)
    have "length (filter (\<lambda>y. a > y) (xs[j' := xs ! Suc j', Suc j' := xs ! j']))
          = length (filter (\<lambda>y. a > y) xs)"
      by (rule filter_length_mset [OF m])
    with Cons.IH [OF j'] Suc show ?thesis by simp
  qed
qed

text \<open>A vector seen as the part before the range, the range, and the part after it.\<close>

definition framed :: "int list \<Rightarrow> int list \<Rightarrow> int \<Rightarrow> int \<Rightarrow> bool" where
  "framed pre mid start stop \<longleftrightarrow>
     0 \<le> start \<and> length pre = nat start \<and> length mid = nat (stop - start + 1)"

lemma swap_framed:
  assumes fr: "framed pre mid start stop" and i: "start \<le> i" "i + 1 \<le> stop"
  shows "\<exists>mid' changed'.
           swap_if_greater i (pre @ mid @ post, changed) = Inr (pre @ mid' @ post, changed')
           \<and> progress (mid, changed) (mid', changed')
           \<and> (\<not> changed' \<longrightarrow> mid ! nat (i - start) \<le> mid ! Suc (nat (i - start)))
           \<and> mid' ! nat (i - start) \<le> mid' ! Suc (nat (i - start))"
proof -
  define j where "j = nat (i - start)"
  have ni: "nat i = length pre + j" "nat (i + 1) = length pre + Suc j"
    using fr i by (auto simp: framed_def j_def)
  have j: "Suc j < length mid"
    using fr i by (auto simp: framed_def j_def)
  have inv: "in_vec (pre @ mid @ post) i" "in_vec (pre @ mid @ post) (i + 1)"
    using fr i by (auto simp: framed_def in_vec_def)
  have at: "(pre @ mid @ post) ! nat i = mid ! j" "(pre @ mid @ post) ! nat (i + 1) = mid ! Suc j"
    using j by (simp_all add: ni nth_append)
  show ?thesis
  proof (cases "mid ! j > mid ! Suc j")
    case True
    let ?mid' = "mid[j := mid ! Suc j, Suc j := mid ! j]"
    have upd: "(pre @ mid @ post)[nat i := mid ! Suc j, nat (i + 1) := mid ! j] = pre @ ?mid' @ post"
      using j by (simp add: ni list_update_append)
    have "swap_if_greater i (pre @ mid @ post, changed) = Inr (pre @ ?mid' @ post, True)"
      using True inv by (simp add: swap_if_greater_def at upd)
    moreover have "progress (mid, changed) (?mid', True)"
      using j True inversions_swap_adjacent [of j mid]
      by (simp add: progress_def mset_swap)
    moreover have "?mid' ! nat (i - start) \<le> ?mid' ! Suc (nat (i - start))"
      using j True by (simp add: j_def [symmetric])
    ultimately show ?thesis by blast
  next
    case False
    have "swap_if_greater i (pre @ mid @ post, changed) = Inr (pre @ mid @ post, changed)"
      using False inv by (simp add: swap_if_greater_def at)
    moreover have "mid ! nat (i - start) \<le> mid ! Suc (nat (i - start))"
      using False by (simp add: j_def)
    ultimately show ?thesis using progress_refl by blast
  qed
qed


lemma framed_progress:
  "framed pre mid start stop \<Longrightarrow> progress (mid, c) (mid', c') \<Longrightarrow> framed pre mid' start stop"
  by (simp add: framed_def progress_def)

lemma triple_framed:
  assumes fr: "framed pre mid start stop" and i: "start \<le> i" "i + 2 \<le> stop"
  shows "\<exists>mid' changed'.
           triple_fix i (pre @ mid @ post, changed) = Inr (pre @ mid' @ post, changed')
           \<and> progress (mid, changed) (mid', changed')
           \<and> (\<not> changed' \<longrightarrow> mid ! nat (i - start) \<le> mid ! Suc (nat (i - start))
                              \<and> mid ! Suc (nat (i - start)) \<le> mid ! Suc (Suc (nat (i - start))))"
proof -
  have n1: "nat (i + 1 - start) = Suc (nat (i - start))"
    using i by simp
  from swap_framed [OF fr, of i post changed] i
  obtain m1 c1 where s1: "swap_if_greater i (pre @ mid @ post, changed) = Inr (pre @ m1 @ post, c1)"
    and p1: "progress (mid, changed) (m1, c1)"
    and o1: "\<not> c1 \<longrightarrow> mid ! nat (i - start) \<le> mid ! Suc (nat (i - start))"
    by auto
  have fr1: "framed pre m1 start stop" by (rule framed_progress [OF fr p1])
  from swap_framed [OF fr1, of "i + 1" post c1] i
  obtain m2 c2 where s2: "swap_if_greater (i + 1) (pre @ m1 @ post, c1) = Inr (pre @ m2 @ post, c2)"
    and p2: "progress (m1, c1) (m2, c2)"
    and o2: "\<not> c2 \<longrightarrow> m1 ! Suc (nat (i - start)) \<le> m1 ! Suc (Suc (nat (i - start)))"
    by (auto simp: n1)
  have fr2: "framed pre m2 start stop" by (rule framed_progress [OF fr1 p2])
  from swap_framed [OF fr2, of i post c2] i
  obtain m3 c3 where s3: "swap_if_greater i (pre @ m2 @ post, c2) = Inr (pre @ m3 @ post, c3)"
    and p3: "progress (m2, c2) (m3, c3)"
    by auto
  have run: "triple_fix i (pre @ mid @ post, changed) = Inr (pre @ m3 @ post, c3)"
    by (simp add: triple_fix_def bindE_def s1 s2 s3)
  have p: "progress (mid, changed) (m3, c3)"
    using p1 p2 p3 by (blast intro: progress_trans)
  have "mid ! nat (i - start) \<le> mid ! Suc (nat (i - start))
        \<and> mid ! Suc (nat (i - start)) \<le> mid ! Suc (Suc (nat (i - start)))" if "\<not> c3"
  proof -
    from that p3 have "\<not> c2" by (simp add: progress_def)
    with p2 have "\<not> c1" "m2 = m1" by (simp_all add: progress_def)
    with p1 have "m1 = mid" by (simp add: progress_def)
    with o1 o2 \<open>\<not> c1\<close> \<open>\<not> c2\<close> show ?thesis by simp
  qed
  with run p show ?thesis by blast
qed

lemma pass_framed:
  assumes fr: "framed pre mid start stop" and idx: "\<forall>i \<in> set js. start \<le> i \<and> i + 2 \<le> stop"
  shows "\<exists>mid' changed'.
           foldE triple_fix js (pre @ mid @ post, changed) = Inr (pre @ mid' @ post, changed')
           \<and> progress (mid, changed) (mid', changed')
           \<and> (\<not> changed' \<longrightarrow>
                (\<forall>i \<in> set js. mid ! nat (i - start) \<le> mid ! Suc (nat (i - start))
                   \<and> mid ! Suc (nat (i - start)) \<le> mid ! Suc (Suc (nat (i - start)))))"
  using assms
proof (induction js arbitrary: mid changed)
  case Nil
  then show ?case using progress_refl by auto
next
  case (Cons i js)
  from Cons.prems have i: "start \<le> i" "i + 2 \<le> stop" by auto
  from triple_framed [OF Cons.prems(1) i, of post changed]
  obtain m1 c1 where s1: "triple_fix i (pre @ mid @ post, changed) = Inr (pre @ m1 @ post, c1)"
    and p1: "progress (mid, changed) (m1, c1)"
    and o1: "\<not> c1 \<longrightarrow> mid ! nat (i - start) \<le> mid ! Suc (nat (i - start))
                     \<and> mid ! Suc (nat (i - start)) \<le> mid ! Suc (Suc (nat (i - start)))"
    by blast
  have fr1: "framed pre m1 start stop" by (rule framed_progress [OF Cons.prems(1) p1])
  from Cons.IH [OF fr1, of c1] Cons.prems(2)
  obtain m2 c2 where s2: "foldE triple_fix js (pre @ m1 @ post, c1) = Inr (pre @ m2 @ post, c2)"
    and p2: "progress (m1, c1) (m2, c2)"
    and o2: "\<not> c2 \<longrightarrow> (\<forall>i \<in> set js. m1 ! nat (i - start) \<le> m1 ! Suc (nat (i - start))
                   \<and> m1 ! Suc (nat (i - start)) \<le> m1 ! Suc (Suc (nat (i - start))))"
    by auto
  have run: "foldE triple_fix (i # js) (pre @ mid @ post, changed) = Inr (pre @ m2 @ post, c2)"
    by (simp add: s1 s2)
  have p: "progress (mid, changed) (m2, c2)"
    using p1 p2 by (blast intro: progress_trans)
  have "\<forall>i \<in> set (i # js). mid ! nat (i - start) \<le> mid ! Suc (nat (i - start))
                   \<and> mid ! Suc (nat (i - start)) \<le> mid ! Suc (Suc (nat (i - start)))" if "\<not> c2"
  proof -
    from that p2 have "\<not> c1" by (simp add: progress_def)
    with p1 have "m1 = mid" by (simp add: progress_def)
    with o1 o2 \<open>\<not> c1\<close> that show ?thesis by simp
  qed
  with run p show ?case by blast
qed

lemma cycle_framed:
  assumes fr: "framed pre mid start stop" and big: "start + 2 \<le> stop"
  shows "\<exists>mid' changed'.
           fix_cycle start stop (pre @ mid @ post) = Inr (pre @ mid' @ post, changed')
           \<and> progress (mid, False) (mid', changed')
           \<and> (\<not> changed' \<longrightarrow> sorted mid)"
proof -
  have fwd: "\<forall>i \<in> set [start..stop - 2]. start \<le> i \<and> i + 2 \<le> stop" by auto
  have bwd: "\<forall>i \<in> set (rev [start..stop - 2]). start \<le> i \<and> i + 2 \<le> stop" by auto
  from pass_framed [OF fr fwd, of post False]
  obtain m1 c1 where s1: "forward_pass start stop (pre @ mid @ post, False) = Inr (pre @ m1 @ post, c1)"
    and p1: "progress (mid, False) (m1, c1)"
    and o1: "\<not> c1 \<longrightarrow> (\<forall>i \<in> set [start..stop - 2]. mid ! nat (i - start) \<le> mid ! Suc (nat (i - start))
                   \<and> mid ! Suc (nat (i - start)) \<le> mid ! Suc (Suc (nat (i - start))))"
    unfolding forward_pass_def by blast
  have fr1: "framed pre m1 start stop" by (rule framed_progress [OF fr p1])
  from pass_framed [OF fr1 bwd, of post c1]
  obtain m2 c2 where s2: "backward_pass start stop (pre @ m1 @ post, c1) = Inr (pre @ m2 @ post, c2)"
    and p2: "progress (m1, c1) (m2, c2)"
    unfolding backward_pass_def by blast
  have run: "fix_cycle start stop (pre @ mid @ post) = Inr (pre @ m2 @ post, c2)"
    by (simp add: fix_cycle_def bindE_def s1 s2)
  have p: "progress (mid, False) (m2, c2)"
    using p1 p2 by (blast intro: progress_trans)
  have "sorted mid" if "\<not> c2"
  proof -
    from that p2 have nc: "\<not> c1" by (simp add: progress_def)
    have len: "length mid = nat (stop - start + 1)" using fr by (simp add: framed_def)
    have "mid ! j \<le> mid ! Suc j" if j: "Suc j < length mid" for j
    proof (cases "Suc (Suc j) < length mid")
      case True
      then have "start + int j \<in> set [start..stop - 2]" using len by auto
      with o1 nc have "mid ! nat (start + int j - start) \<le> mid ! Suc (nat (start + int j - start))"
        by blast
      then show ?thesis by simp
    next
      case False
      with j have eq: "Suc (Suc j) = length mid" by simp
      with big len obtain j' where j': "j = Suc j'" by (cases j) auto
      with eq len have "start + int j' \<in> set [start..stop - 2]" by auto
      with o1 nc have "mid ! Suc (nat (start + int j' - start)) \<le> mid ! Suc (Suc (nat (start + int j' - start)))"
        by blast
      then show ?thesis by (simp add: j')
    qed
    then show ?thesis by (simp add: sorted_iff_nth_Suc)
  qed
  with run p show ?thesis by blast
qed

lemma loop_framed:
  assumes fr: "framed pre mid start stop" and big: "start + 2 \<le> stop"
  shows "\<exists>mid'. fix_loop start stop (pre @ mid @ post) = Some (Inr (pre @ mid' @ post))
           \<and> sorted mid' \<and> mset mid' = mset mid \<and> length mid' = length mid"
  using fr
proof (induction "inversions mid" arbitrary: mid rule: less_induct)
  case less
  from cycle_framed [OF less.prems big, of post]
  obtain m1 c1 where s1: "fix_cycle start stop (pre @ mid @ post) = Inr (pre @ m1 @ post, c1)"
    and p1: "progress (mid, False) (m1, c1)"
    and o1: "\<not> c1 \<longrightarrow> sorted mid"
    by blast
  show ?case
  proof (cases c1)
    case True
    with p1 have dec: "inversions m1 < inversions mid" and same: "mset m1 = mset mid" "length m1 = length mid"
      by (simp_all add: progress_def)
    have fr1: "framed pre m1 start stop" by (rule framed_progress [OF less.prems p1])
    from less.hyps [OF dec fr1]
    obtain m2 where "fix_loop start stop (pre @ m1 @ post) = Some (Inr (pre @ m2 @ post))"
      and "sorted m2" "mset m2 = mset m1" "length m2 = length m1"
      by blast
    with True s1 same show ?thesis
      by (subst fix_loop.simps) simp
  next
    case False
    with p1 have "m1 = mid" by (simp add: progress_def)
    with False s1 o1 show ?thesis
      by (subst fix_loop.simps) simp
  qed
qed


lemma fix_framed:
  assumes fr: "framed pre mid start stop"
  shows "\<exists>mid'. alpayTripleFixBidirectional (pre @ mid @ post) start stop
                   = Some (Inr (pre @ mid' @ post))
           \<and> sorted mid' \<and> mset mid' = mset mid \<and> length mid' = length mid"
proof -
  consider "start \<ge> stop" | "stop - start = 1" | "start + 2 \<le> stop" by linarith
  then show ?thesis
  proof cases
    case 1
    with fr have "length mid \<le> 1" by (simp add: framed_def)
    then have "sorted mid" by (rule sorted01)
    with 1 show ?thesis by (auto simp: alpayTripleFixBidirectional_def)
  next
    case 2
    with swap_framed [OF fr, of start post False]
    obtain m1 c1 where s1: "swap_if_greater start (pre @ mid @ post, False) = Inr (pre @ m1 @ post, c1)"
      and p1: "progress (mid, False) (m1, c1)" and o1: "m1 ! 0 \<le> m1 ! Suc 0"
      by auto
    from p1 2 fr have len: "length m1 = 2" by (simp add: progress_def framed_def)
    have "sorted m1"
      unfolding sorted_iff_nth_Suc using o1 len by (auto simp: less_Suc_eq)
    moreover have "alpayTripleFixBidirectional (pre @ mid @ post) start stop = Some (Inr (pre @ m1 @ post))"
      using 2 s1 by (simp add: alpayTripleFixBidirectional_def bindE_def)
    ultimately show ?thesis using p1 by (auto simp: progress_def)
  next
    case 3
    with loop_framed [OF fr 3, of post] show ?thesis
      by (simp add: alpayTripleFixBidirectional_def)
  qed
qed

lemma split_range:
  assumes "0 \<le> start" "start \<le> stop + 1" "stop < int (length arr)"
  shows "arr = take (nat start) arr @ subrange arr start stop @ drop (nat (stop + 1)) arr"
    and "framed (take (nat start) arr) (subrange arr start stop) start stop"
proof -
  have n: "nat (stop + 1) = nat start + nat (stop - start + 1)"
    using assms by linarith
  have dd: "drop (nat (stop + 1)) arr = drop (nat (stop - start + 1)) (drop (nat start) arr)"
    using n by (metis drop_drop add.commute)
  have a: "take (nat (stop - start + 1)) (drop (nat start) arr)
             @ drop (nat (stop - start + 1)) (drop (nat start) arr) = drop (nat start) arr"
    by (rule append_take_drop_id)
  have b: "take (nat start) arr @ drop (nat start) arr = arr"
    by (rule append_take_drop_id)
  show "arr = take (nat start) arr @ subrange arr start stop @ drop (nat (stop + 1)) arr"
    by (simp only: subrange_def dd a b)
  show "framed (take (nat start) arr) (subrange arr start stop) start stop"
    using assms by (auto simp: framed_def subrange_def)
qed

lemma subrange_framed:
  "framed pre mid start stop \<Longrightarrow> subrange (pre @ mid @ post) start stop = mid"
  by (simp add: framed_def subrange_def)

lemma fix_sorts:
  assumes ib: "in_bounds arr start stop"
  shows "\<exists>arr'. alpayTripleFixBidirectional arr start stop = Some (Inr arr')
           \<and> length arr' = length arr
           \<and> sorted (subrange arr' start stop)
           \<and> mset (subrange arr' start stop) = mset (subrange arr start stop)
           \<and> take (nat start) arr' = take (nat start) arr
           \<and> drop (nat (stop + 1)) arr' = drop (nat (stop + 1)) arr"
proof (cases "start \<le> stop + 1")
  case True
  let ?pre = "take (nat start) arr" and ?mid = "subrange arr start stop"
    and ?post = "drop (nat (stop + 1)) arr"
  from ib True have arr: "arr = ?pre @ ?mid @ ?post" and fr: "framed ?pre ?mid start stop"
    by (simp_all add: in_bounds_def split_range)
  from fix_framed [OF fr, of ?post] arr
  obtain mid' where run: "alpayTripleFixBidirectional arr start stop = Some (Inr (?pre @ mid' @ ?post))"
    and srt: "sorted mid'" and ms: "mset mid' = mset ?mid" and len: "length mid' = length ?mid"
    by auto
  have fr': "framed ?pre mid' start stop"
    using fr len by (simp add: framed_def)
  have sub: "subrange (?pre @ mid' @ ?post) start stop = mid'"
    by (rule subrange_framed [OF fr'])
  have l: "length (?pre @ mid' @ ?post) = length arr"
    using len arr by (metis length_append)
  have lp: "length ?pre = nat start" using fr by (simp add: framed_def)
  have t: "take (nat start) (?pre @ mid' @ ?post) = ?pre"
    using lp by simp
  have ls: "length ?pre + length mid' = nat (stop + 1)"
    using fr' True by (simp add: framed_def) linarith
  have d: "drop (nat (stop + 1)) (?pre @ mid' @ ?post) = ?post"
    using ls [symmetric] by simp
  show ?thesis
    using run srt ms l t d by (intro exI [of _ "?pre @ mid' @ ?post"]) (simp add: sub)
next
  case False
  then have "start \<ge> stop" "nat (stop - start + 1) = 0" by simp_all
  then show ?thesis
    by (simp add: alpayTripleFixBidirectional_def subrange_def)
qed


lemma cycle_decreases:
  assumes ib: "in_bounds arr start stop"
  shows "\<exists>arr' changed. fix_cycle start stop arr = Inr (arr', changed)
           \<and> (if changed
                then inversions (subrange arr' start stop) < inversions (subrange arr start stop)
                else arr' = arr)"
proof (cases "start + 2 \<le> stop")
  case True
  let ?pre = "take (nat start) arr" and ?mid = "subrange arr start stop"
    and ?post = "drop (nat (stop + 1)) arr"
  from ib True have arr: "arr = ?pre @ ?mid @ ?post" and fr: "framed ?pre ?mid start stop"
    by (simp_all add: in_bounds_def split_range)
  from cycle_framed [OF fr True, of ?post] arr
  obtain mid' c where run: "fix_cycle start stop arr = Inr (?pre @ mid' @ ?post, c)"
    and p: "progress (?mid, False) (mid', c)"
    by auto
  have fr': "framed ?pre mid' start stop" by (rule framed_progress [OF fr p])
  have sub: "subrange (?pre @ mid' @ ?post) start stop = mid'"
    by (rule subrange_framed [OF fr'])
  have "if c then inversions (subrange (?pre @ mid' @ ?post) start stop) < inversions ?mid
        else ?pre @ mid' @ ?post = arr"
  proof (cases c)
    case True
    with p have "inversions mid' < inversions ?mid" by (simp add: progress_def)
    with True sub show ?thesis by simp
  next
    case False
    with p have "mid' = ?mid" by (simp add: progress_def)
    with False arr show ?thesis by simp
  qed
  with run show ?thesis by blast
next
  case False
  then have "[start..stop - 2] = []" by simp
  then have "fix_cycle start stop arr = Inr (arr, False)"
    by (simp add: fix_cycle_def forward_pass_def backward_pass_def bindE_def)
  then show ?thesis by (intro exI [of _ arr] exI [of _ False]) simp
qed

lemma loop_total:
  assumes ib: "in_bounds arr start stop"
  shows "\<exists>arr'. fix_loop start stop arr = Some (Inr arr')"
proof (cases "start + 2 \<le> stop")
  case True
  let ?pre = "take (nat start) arr" and ?mid = "subrange arr start stop"
    and ?post = "drop (nat (stop + 1)) arr"
  from ib True have arr: "arr = ?pre @ ?mid @ ?post" and fr: "framed ?pre ?mid start stop"
    by (simp_all add: in_bounds_def split_range)
  from loop_framed [OF fr True, of ?post] arr show ?thesis by auto
next
  case False
  then have "[start..stop - 2] = []" by simp
  then have "fix_cycle start stop arr = Inr (arr, False)"
    by (simp add: fix_cycle_def forward_pass_def backward_pass_def bindE_def)
  then show ?thesis by (subst fix_loop.simps) simp
qed

section \<open>Properties of sampling and pivot selection\<close>

text \<open>\<open>isqrt\<close> is the integer square root.\<close>

lemma isqrt_bounds: "isqrt n * isqrt n \<le> n \<and> n < (isqrt n + 1) * (isqrt n + 1)"
proof (induction n)
  case 0
  then show ?case by simp
next
  case (Suc n)
  define r where "r = isqrt n"
  from Suc have lo: "r * r \<le> n" and hi: "n < (r + 1) * (r + 1)"
    by (simp_all add: r_def)
  show ?case
  proof (cases "(r + 1) * (r + 1) \<le> Suc n")
    case True
    then have "isqrt (Suc n) = r + 1" by (simp add: r_def)
    moreover from hi have "Suc n < (r + 1 + 1) * (r + 1 + 1)" by simp
    ultimately show ?thesis using True by simp
  next
    case False
    then have "isqrt (Suc n) = r" by (simp add: r_def)
    with lo False show ?thesis by simp
  qed
qed

lemma gather_samples_ok:
  assumes ib: "in_bounds arr start stop" and sz: "sz = stop - start + 1" "0 < sz"
  shows "\<exists>samples. gather_samples draws arr start sz n acc k = Inr (samples, k + n)
           \<and> length samples = length acc + n
           \<and> set samples \<subseteq> set acc \<union> set arr"
proof (induction n arbitrary: acc k)
  case 0
  then show ?case by simp
next
  case (Suc n)
  let ?r = "start + int (draws k) mod sz"
  have "0 \<le> int (draws k) mod sz \<and> int (draws k) mod sz < sz"
    using sz(2) by simp
  with ib sz(1) have r: "in_vec arr ?r"
    unfolding in_bounds_def in_vec_def by linarith
  then have at: "vec_at arr ?r = Inr (arr ! nat ?r)"
    by (simp add: vec_at_def)
  from r have "nat ?r < length arr"
    by (simp add: in_vec_def nat_less_iff)
  then have mem: "arr ! nat ?r \<in> set arr"
    by (rule nth_mem)
  from Suc.IH [of "acc @ [arr ! nat ?r]" "k + 1"]
  obtain samples where
    "gather_samples draws arr start sz n (acc @ [arr ! nat ?r]) (k + 1) = Inr (samples, k + 1 + n)"
    "length samples = length (acc @ [arr ! nat ?r]) + n"
    "set samples \<subseteq> set (acc @ [arr ! nat ?r]) \<union> set arr"
    by blast
  with at mem show ?case by (auto simp: Let_def)
qed

lemma pick_loop_ok:
  "\<forall>i \<in> set js. i * step < length samples \<Longrightarrow>
   foldE (\<lambda>i pivots. bindE (vec_at samples (int (i * step))) (\<lambda>x. Inr (pivots @ [x]))) js acc
     = Inr (acc @ map (\<lambda>i. samples ! (i * step)) js)"
  by (induction js arbitrary: acc) (simp_all add: vec_at_def in_vec_def bindE_def flip: of_nat_mult)

lemma pick_pivots_ok:
  "\<forall>i < pivotCount. i * step < length samples \<Longrightarrow>
   pick_pivots samples step pivotCount = Inr (map (\<lambda>i. samples ! (i * step)) [0..<pivotCount])"
  unfolding pick_pivots_def by (subst pick_loop_ok) simp_all

lemma discard_outliers_length:
  "pivotCount \<le> length samples \<Longrightarrow> pivotCount \<le> length (discard_outliers samples pivotCount)"
  by (auto simp: discard_outliers_def Let_def)

lemma stride_in_range:
  fixes p m i :: nat
  assumes "0 < p" "p \<le> m" "i < p"
  shows "i * max 1 (m div p) < m"
proof -
  have d: "1 \<le> m div p"
    using div_le_mono [of p m p] assms by simp
  have "Suc i * (m div p) \<le> p * (m div p)"
    using assms by (intro mult_le_mono1) simp
  also have "\<dots> \<le> m" by simp
  finally have "i * (m div p) + m div p \<le> m" by simp
  with d have "i * (m div p) < m" by linarith
  with d show ?thesis by (simp add: max_def)
qed

lemma pivot_count_ge2: "2 \<le> pivot_count sz"
  by (simp add: pivot_count_def)

lemma pivot_sample_count_ge: "pivotCount \<le> pivot_sample_count pivotCount"
  by (simp add: pivot_sample_count_def)

lemma stride_ok:
  assumes "length samples = pivot_sample_count (pivot_count sz)"
  shows "pivot_count sz \<le> length (discard_outliers samples (pivot_count sz))"
    and "\<forall>i < pivot_count sz.
           i * pivot_step (discard_outliers samples (pivot_count sz)) (pivot_count sz)
             < length (discard_outliers samples (pivot_count sz))"
proof -
  show le: "pivot_count sz \<le> length (discard_outliers samples (pivot_count sz))"
    using assms pivot_sample_count_ge [of "pivot_count sz"]
    by (intro discard_outliers_length) simp
  show "\<forall>i < pivot_count sz.
           i * pivot_step (discard_outliers samples (pivot_count sz)) (pivot_count sz)
             < length (discard_outliers samples (pivot_count sz))"
  proof (intro allI impI)
    fix i assume "i < pivot_count sz"
    with le pivot_count_ge2 [of sz]
    show "i * pivot_step (discard_outliers samples (pivot_count sz)) (pivot_count sz)
             < length (discard_outliers samples (pivot_count sz))"
      unfolding pivot_step_def by (intro stride_in_range) simp_all
  qed
qed

section \<open>Properties of the distribution into buckets\<close>

lemma find_bucket_eq:
  "pivotCount = length pivots \<Longrightarrow> b \<le> length pivots \<Longrightarrow>
   find_bucket pivotCount pivots x b
     = Inr (b + length (takeWhile (\<lambda>p. p \<le> x) (drop b pivots)))"
proof (induction pivotCount pivots x b rule: find_bucket.induct)
  case (1 pivotCount pivots x b)
  show ?case
  proof (cases "b < pivotCount")
    case True
    with "1.prems" have at: "vec_at pivots (int b) = Inr (pivots ! b)"
      by (simp add: vec_at_def in_vec_def)
    from True "1.prems" have dr: "drop b pivots = pivots ! b # drop (Suc b) pivots"
      by (simp add: Cons_nth_drop_Suc)
    show ?thesis
    proof (cases "pivots ! b \<le> x")
      case le: True
      with "1.IH" [OF True at le] "1.prems" True
      have "find_bucket pivotCount pivots x (b + 1)
              = Inr (b + 1 + length (takeWhile (\<lambda>p. p \<le> x) (drop (b + 1) pivots)))"
        by simp
      with True at le dr show ?thesis
        by (subst find_bucket.simps) simp
    next
      case False
      with True at dr show ?thesis
        by (subst find_bucket.simps) simp
    qed
  next
    case False
    with "1.prems" show ?thesis
      by (subst find_bucket.simps) simp
  qed
qed

lemma takeWhile_le_sorted:
  "sorted ps \<Longrightarrow> takeWhile (\<lambda>p. p \<le> x) ps = filter (\<lambda>p. p \<le> (x::int)) ps"
proof (induction ps)
  case Nil
  then show ?case by simp
next
  case (Cons p ps)
  show ?case
  proof (cases "p \<le> x")
    case True
    with Cons show ?thesis by simp
  next
    case False
    with Cons.prems have "\<forall>q \<in> set ps. \<not> q \<le> x" by auto
    then have "filter (\<lambda>p. p \<le> x) ps = []" by (simp add: filter_empty_conv)
    with False show ?thesis by simp
  qed
qed

lemma find_bucket_sorted:
  "sorted pivots \<Longrightarrow> find_bucket (length pivots) pivots x 0 = Inr (pivots_at_most pivots x)"
  by (simp add: find_bucket_eq takeWhile_le_sorted pivots_at_most_def)

lemma pivots_at_most_le: "pivots_at_most pivots x \<le> length pivots"
  by (simp add: pivots_at_most_def)

lemma distribute_loop:
  assumes srt: "sorted pivots"
  shows "\<forall>i \<in> set js. in_vec arr i \<Longrightarrow> length buckets = length pivots + 1 \<Longrightarrow>
     foldE (\<lambda>i buckets.
              bindE (vec_at arr i) (\<lambda>x.
              bindE (find_bucket (length pivots) pivots x 0) (\<lambda>b.
              Inr (buckets[b := buckets ! b @ [x]]))))
           js buckets
     = Inr (map (\<lambda>j. buckets ! j @ filter (\<lambda>x. pivots_at_most pivots x = j) (map (\<lambda>i. arr ! nat i) js))
                [0..<length pivots + 1])"
proof (induction js arbitrary: buckets)
  case Nil
  have "map (\<lambda>j. buckets ! j) [0..<length buckets] = buckets" by (rule map_nth)
  with Nil.prems(2) show ?case by simp
next
  case (Cons i js)
  let ?x = "arr ! nat i" and ?b = "pivots_at_most pivots (arr ! nat i)"
  let ?bs = "buckets[?b := buckets ! ?b @ [?x]]"
  from Cons.prems have at: "vec_at arr i = Inr ?x" by (simp add: vec_at_def)
  have b: "?b < length buckets"
    using pivots_at_most_le [of pivots ?x] Cons.prems(2) by simp
  have step: "foldE (\<lambda>i buckets.
              bindE (vec_at arr i) (\<lambda>x.
              bindE (find_bucket (length pivots) pivots x 0) (\<lambda>b.
              Inr (buckets[b := buckets ! b @ [x]]))))
           (i # js) buckets
     = Inr (map (\<lambda>j. ?bs ! j @ filter (\<lambda>x. pivots_at_most pivots x = j) (map (\<lambda>i. arr ! nat i) js))
                [0..<length pivots + 1])"
    using Cons.IH [of ?bs] Cons.prems
    by (simp add: at find_bucket_sorted [OF srt] bindE_def del: upt_Suc)
  have "map (\<lambda>j. ?bs ! j @ filter (\<lambda>x. pivots_at_most pivots x = j) (map (\<lambda>i. arr ! nat i) js))
                [0..<length pivots + 1]
      = map (\<lambda>j. buckets ! j @ filter (\<lambda>x. pivots_at_most pivots x = j) (map (\<lambda>i. arr ! nat i) (i # js)))
                [0..<length pivots + 1]"
  proof (rule map_cong [OF refl])
    fix j assume "j \<in> set [0..<length pivots + 1]"
    with Cons.prems(2) have j: "j < length buckets" by auto
    show "?bs ! j @ filter (\<lambda>x. pivots_at_most pivots x = j) (map (\<lambda>i. arr ! nat i) js)
        = buckets ! j @ filter (\<lambda>x. pivots_at_most pivots x = j) (map (\<lambda>i. arr ! nat i) (i # js))"
      using j b by (cases "j = ?b") simp_all
  qed
  with step show ?case by simp
qed

lemma subrange_upto:
  assumes "in_bounds arr start stop"
  shows "map (\<lambda>i. arr ! nat i) [start..stop] = subrange arr start stop"
proof (rule nth_equalityI)
  show len: "length (map (\<lambda>i. arr ! nat i) [start..stop]) = length (subrange arr start stop)"
    using assms by (auto simp: subrange_def in_bounds_def)
  fix k assume "k < length (map (\<lambda>i. arr ! nat i) [start..stop])"
  then have k: "start + int k \<le> stop" by simp
  with assms have "nat (start + int k) = nat start + k" "k < nat (stop - start + 1)"
    "nat start \<le> length arr"
    by (auto simp: in_bounds_def)
  with k show "map (\<lambda>i. arr ! nat i) [start..stop] ! k = subrange arr start stop ! k"
    by (simp add: subrange_def)
qed

lemma distribute_eq:
  assumes "sorted pivots" "in_bounds arr start stop"
  shows "distribute (length pivots) pivots arr start stop
         = Inr (map (\<lambda>j. filter (\<lambda>x. pivots_at_most pivots x = j) (subrange arr start stop))
                    [0..<length pivots + 1])"
proof -
  have "\<forall>i \<in> set [start..stop]. in_vec arr i"
    using assms(2) by (auto simp: in_bounds_def in_vec_def)
  from distribute_loop [OF assms(1) this, of "replicate (length pivots + 1) []"]
  show ?thesis
    unfolding distribute_def by (simp add: subrange_upto [OF assms(2)] del: upt_Suc replicate_Suc cong: map_cong)
qed

lemma mset_filter_split:
  "mset (filter (\<lambda>x. f x < n) xs) + mset (filter (\<lambda>x. f x = n) xs)
   = mset (filter (\<lambda>x. f x < Suc n) xs)"
  by (induction xs) (auto simp: less_Suc_eq)

lemma mset_concat_classes:
  "mset (concat (map (\<lambda>j. filter (\<lambda>x. f x = j) xs) [0..<n])) = mset (filter (\<lambda>x. f x < n) xs)"
proof (induction n)
  case 0
  then show ?case by simp
next
  case (Suc n)
  then show ?case using mset_filter_split [of f n xs] by simp
qed

lemma pivots_at_most_bounds:
  assumes "sorted pivots" "pivots_at_most pivots x = j"
  shows "(0 < j \<longrightarrow> pivots ! (j - 1) \<le> x) \<and> (j < length pivots \<longrightarrow> x < pivots ! j)"
proof -
  let ?t = "takeWhile (\<lambda>p. p \<le> x) pivots"
  have j: "j = length ?t"
    using assms by (simp add: pivots_at_most_def takeWhile_le_sorted)
  have "pivots ! (j - 1) \<le> x" if "0 < j"
  proof -
    from that j have "j - 1 < length ?t" by simp
    then have "?t ! (j - 1) \<in> set ?t" and "?t ! (j - 1) = pivots ! (j - 1)"
      by (rule nth_mem, rule takeWhile_nth)
    then show ?thesis by (auto dest: set_takeWhileD)
  qed
  moreover have "x < pivots ! j" if "j < length pivots"
    using that nth_length_takeWhile [of "\<lambda>p. p \<le> x" pivots] j by simp
  ultimately show ?thesis by blast
qed

section \<open>Properties of the k-way merge\<close>

text \<open>The bucket elements that an item of the queue stands for: its own and the later ones.\<close>

definition rest_of :: "int list list \<Rightarrow> HeapItem \<Rightarrow> int list" where
  "rest_of buckets x = drop (iIndex x) (buckets ! bIndex x)"

text \<open>
  An item of the queue is in order when it points at an element of a sorted bucket and
  carries that element's value.
\<close>

definition item_ok :: "int list list \<Rightarrow> HeapItem \<Rightarrow> bool" where
  "item_ok buckets x \<longleftrightarrow>
     sorted (buckets ! bIndex x) \<and> iIndex x < length (buckets ! bIndex x)
     \<and> val x = buckets ! bIndex x ! iIndex x"

definition pending_mset :: "int list list \<Rightarrow> HeapItem list \<Rightarrow> int multiset" where
  "pending_mset buckets h = sum_list (map (\<lambda>x. mset (rest_of buckets x)) h)"


lemma rest_of_split:
  "item_ok buckets x \<Longrightarrow>
   rest_of buckets x = val x # drop (Suc (iIndex x)) (buckets ! bIndex x)"
  by (simp add: item_ok_def rest_of_def Cons_nth_drop_Suc)

lemma rest_of_ge:
  assumes "item_ok buckets x" "y \<in> set (rest_of buckets x)"
  shows "val x \<le> y"
proof -
  from assms(1) have "sorted (rest_of buckets x)"
    by (simp add: item_ok_def rest_of_def)
  with assms rest_of_split [OF assms(1)] show ?thesis by auto
qed

lemma pending_mset_pop:
  "h \<noteq> [] \<Longrightarrow>
   pending_mset buckets h
     = mset (rest_of buckets (heap_top pick h)) + pending_mset buckets (heap_pop pick h)"
  unfolding pending_mset_def heap_pop_def
  using heap_top_in [of h pick] by (simp add: sum_list_map_remove1)

lemma pending_mset_push:
  "pending_mset buckets (heap_push x h) = pending_mset buckets h + mset (rest_of buckets x)"
  by (simp add: pending_mset_def heap_push_def)

lemma pending_mset_member:
  "y \<in># pending_mset buckets h \<Longrightarrow> \<exists>x \<in> set h. y \<in> set (rest_of buckets x)"
  by (induction h) (auto simp: pending_mset_def)


lemma merge_loop_correct:
  "\<forall>x \<in> set minHeap. item_ok buckets x \<Longrightarrow>
   \<exists>r. merge_loop tie buckets minHeap dest = dest @ r
       \<and> mset r = pending_mset buckets minHeap \<and> sorted r"
proof (induction tie buckets minHeap dest rule: merge_loop.induct)
  case (1 tie buckets minHeap dest)
  show ?case
  proof (cases "minHeap = []")
    case True
    then show ?thesis
      by (subst merge_loop.simps) (simp add: pending_mset_def)
  next
    case False
    define top where "top = heap_top (tie (length dest)) minHeap"
    define popped where "popped = heap_pop (tie (length dest)) minHeap"
    define nextIndex where "nextIndex = iIndex top + 1"
    define new where
      "new = \<lparr>val = buckets ! bIndex top ! nextIndex, bIndex = bIndex top, iIndex = nextIndex\<rparr>"
    have top_in: "top \<in> set minHeap"
      unfolding top_def by (rule heap_top_in [OF False])
    with "1.prems" have top_ok: "item_ok buckets top" by blast
    have top_le: "val top \<le> val y" if "y \<in> set minHeap" for y
      unfolding top_def by (rule heap_top_le [OF False that])
    have popped_sub: "set popped \<subseteq> set minHeap"
      unfolding popped_def heap_pop_def by (rule set_remove1_subset)
    with "1.prems" have popped_ok: "\<forall>x \<in> set popped. item_ok buckets x" by blast
    have split: "pending_mset buckets minHeap
                   = mset (rest_of buckets top) + pending_mset buckets popped"
      unfolding top_def popped_def by (rule pending_mset_pop [OF False])
    have top_rest: "rest_of buckets top = val top # drop nextIndex (buckets ! bIndex top)"
      unfolding nextIndex_def using rest_of_split [OF top_ok] by simp
    have below_popped: "val top \<le> y" if "y \<in># pending_mset buckets popped" for y
    proof -
      from pending_mset_member [OF that]
      obtain x where x: "x \<in> set popped" "y \<in> set (rest_of buckets x)" by blast
      with popped_sub popped_ok have "val top \<le> val x" "val x \<le> y"
        by (auto intro: top_le rest_of_ge)
      then show ?thesis by simp
    qed
    have step: "merge_loop tie buckets minHeap dest
                  = (if nextIndex < length (buckets ! bIndex top)
                     then merge_loop tie buckets (heap_push new popped) (dest @ [val top])
                     else merge_loop tie buckets popped (dest @ [val top]))"
      using merge_loop.simps [of tie buckets minHeap dest] False
      unfolding top_def popped_def nextIndex_def new_def by (simp add: Let_def)
    show ?thesis
    proof (cases "nextIndex < length (buckets ! bIndex top)")
      case True
      have new_ok: "item_ok buckets new"
        using top_ok True by (simp add: item_ok_def new_def)
      have new_rest: "rest_of buckets new = drop nextIndex (buckets ! bIndex top)"
        by (simp add: rest_of_def new_def)
      have "\<forall>x \<in> set (heap_push new popped). item_ok buckets x"
        using popped_ok new_ok by (simp add: heap_push_def)
      from "1.IH"(1) [OF False top_def popped_def refl nextIndex_def True, folded new_def, OF this]
      obtain r where r: "merge_loop tie buckets (heap_push new popped) (dest @ [val top])
                           = (dest @ [val top]) @ r"
        and mr: "mset r = pending_mset buckets (heap_push new popped)" and sr: "sorted r"
        by blast
      have run: "merge_loop tie buckets minHeap dest = dest @ val top # r"
        using True r by (simp add: step)
      have ms: "mset (val top # r) = pending_mset buckets minHeap"
        by (simp add: mr split top_rest pending_mset_push new_rest)
      have "val top \<le> y" if "y \<in> set r" for y
      proof -
        from that mr have "y \<in># pending_mset buckets popped \<or> y \<in> set (rest_of buckets new)"
          by (metis pending_mset_push set_mset_mset union_iff)
        then show ?thesis
        proof
          assume "y \<in># pending_mset buckets popped"
          then show ?thesis by (rule below_popped)
        next
          assume "y \<in> set (rest_of buckets new)"
          with new_rest top_rest have "y \<in> set (rest_of buckets top)" by simp
          then show ?thesis by (rule rest_of_ge [OF top_ok])
        qed
      qed
      with sr have "sorted (val top # r)" by simp
      with run ms show ?thesis by blast
    next
      case noNext: False
      from "1.IH"(2) [OF False top_def popped_def refl nextIndex_def noNext popped_ok]
      obtain r where r: "merge_loop tie buckets popped (dest @ [val top]) = (dest @ [val top]) @ r"
        and mr: "mset r = pending_mset buckets popped" and sr: "sorted r"
        by blast
      have run: "merge_loop tie buckets minHeap dest = dest @ val top # r"
        using noNext r by (simp add: step)
      have ms: "mset (val top # r) = pending_mset buckets minHeap"
        using noNext by (simp add: mr split top_rest)
      have "val top \<le> y" if "y \<in> set r" for y
        using that mr below_popped by (metis set_mset_mset)
      with sr have "sorted (val top # r)" by simp
      with run ms show ?thesis by blast
    qed
  qed
qed


lemma initial_loop:
  assumes srt: "\<forall>b \<in> set buckets. sorted b"
  shows "\<forall>j \<in> set js. j < length buckets \<Longrightarrow> \<forall>x \<in> set h. item_ok buckets x \<Longrightarrow>
     (\<forall>x \<in> set (fold (\<lambda>b minHeap.
             if buckets ! b \<noteq> []
             then heap_push \<lparr>val = buckets ! b ! 0, bIndex = b, iIndex = 0\<rparr> minHeap
             else minHeap) js h). item_ok buckets x)
     \<and> pending_mset buckets (fold (\<lambda>b minHeap.
             if buckets ! b \<noteq> []
             then heap_push \<lparr>val = buckets ! b ! 0, bIndex = b, iIndex = 0\<rparr> minHeap
             else minHeap) js h)
         = pending_mset buckets h + sum_list (map (\<lambda>j. mset (buckets ! j)) js)"
proof (induction js arbitrary: h)
  case Nil
  then show ?case by simp
next
  case (Cons j js)
  let ?new = "\<lparr>val = buckets ! j ! 0, bIndex = j, iIndex = 0\<rparr>"
  from Cons.prems(1) srt have sj: "sorted (buckets ! j)" by simp
  show ?case
  proof (cases "buckets ! j = []")
    case True
    with Cons.IH [of h] Cons.prems show ?thesis by simp
  next
    case False
    with sj have ok: "item_ok buckets ?new" by (simp add: item_ok_def)
    with Cons.prems(2) have "\<forall>x \<in> set (heap_push ?new h). item_ok buckets x"
      by (simp add: heap_push_def)
    with Cons.IH [of "heap_push ?new h"] Cons.prems(1) False show ?thesis
      by (simp add: pending_mset_push rest_of_def)
  qed
qed

lemma initial_heap_ok:
  assumes "\<forall>b \<in> set buckets. sorted b"
  shows "\<forall>x \<in> set (initial_heap buckets). item_ok buckets x"
    and "pending_mset buckets (initial_heap buckets) = mset (concat buckets)"
proof -
  have "map (\<lambda>j. mset (buckets ! j)) [0..<length buckets] = map mset (map (\<lambda>j. buckets ! j) [0..<length buckets])"
    by simp
  then have "sum_list (map (\<lambda>j. mset (buckets ! j)) [0..<length buckets]) = mset (concat buckets)"
    by (simp only: map_nth mset_concat)
  with initial_loop [OF assms, of "[0..<length buckets]" "[]"]
  show "\<forall>x \<in> set (initial_heap buckets). item_ok buckets x"
    and "pending_mset buckets (initial_heap buckets) = mset (concat buckets)"
    by (simp_all add: initial_heap_def pending_mset_def)
qed

lemma merge_sorts:
  assumes "\<forall>b \<in> set buckets. sorted b"
  shows "mset (alpayMultiBucketMerge tie buckets dest) = mset (concat buckets)"
    and "sorted (alpayMultiBucketMerge tie buckets dest)"
proof -
  from merge_loop_correct [OF initial_heap_ok(1) [OF assms], of tie "[]"]
  obtain r where "merge_loop tie buckets (initial_heap buckets) [] = r"
    and "mset r = pending_mset buckets (initial_heap buckets)" and "sorted r"
    by auto
  then show "mset (alpayMultiBucketMerge tie buckets dest) = mset (concat buckets)"
    and "sorted (alpayMultiBucketMerge tie buckets dest)"
    by (simp_all add: alpayMultiBucketMerge_def vec_clear_def initial_heap_ok(2) [OF assms])
qed

section \<open>The driver on a range of equal values\<close>

text \<open>
  When all elements of the range are the same value \<open>v\<close>, every sample and every pivot
  is \<open>v\<close>, the test \<open>x >= pivots[b]\<close> holds for every pivot, and the whole range goes to
  the last bucket. The recursive call on that bucket is the call that is being made, with
  more draws used up.
\<close>

lemma subrange_whole: "subrange xs 0 (int (length xs) - 1) = xs"
  by (simp add: subrange_def)

lemma mset_replicate_eq:
  assumes "mset xs = mset (replicate n v)"
  shows "xs = replicate n v"
proof -
  from assms have "length xs = n"
    by (metis length_replicate mset_eq_length)
  moreover from assms have "set xs \<subseteq> {v}"
    by (metis mset_eq_setD set_replicate_conv_if empty_subsetI subset_refl)
  ultimately show ?thesis
    by (intro replicate_eqI) auto
qed

lemma fix_replicate:
  "alpayTripleFixBidirectional (replicate n v) 0 (int n - 1) = Some (Inr (replicate n v))"
proof -
  have "in_bounds (replicate n v) 0 (int n - 1)" by (simp add: in_bounds_def)
  from fix_sorts [OF this]
  obtain arr' where run: "alpayTripleFixBidirectional (replicate n v) 0 (int n - 1) = Some (Inr arr')"
    and len: "length arr' = n"
    and ms: "mset (subrange arr' 0 (int n - 1)) = mset (subrange (replicate n v) 0 (int n - 1))"
    by auto
  from len have "subrange arr' 0 (int n - 1) = arr'"
    using subrange_whole [of arr'] by simp
  moreover have "subrange (replicate n v) 0 (int n - 1) = replicate n v"
    using subrange_whole [of "replicate n v"] by simp
  ultimately have "arr' = replicate n v"
    using ms by (simp add: mset_replicate_eq)
  with run show ?thesis by simp
qed

lemma sort_buckets_stuck:
  assumes "sorter bucket k = None" "1 < length bucket"
  shows "sort_buckets sorter (replicate m [] @ bucket # rest) k = None"
  using assms by (induction m) (simp_all add: bindR_def)


lemma all_in_singleton: "set xs \<subseteq> {v} \<Longrightarrow> xs = replicate (length xs) v"
  by (intro replicate_eqI) auto

lemma gather_replicate:
  assumes "0 < n"
  shows "gather_samples draws (replicate n v) 0 (int n) m [] k = Inr (replicate m v, k + m)"
proof -
  have "in_bounds (replicate n v) 0 (int n - 1)" by (simp add: in_bounds_def)
  from gather_samples_ok [OF this, of "int n" draws m "[]" k] assms
  obtain samples where g: "gather_samples draws (replicate n v) 0 (int n) m [] k = Inr (samples, k + m)"
    and "length samples = m" "set samples \<subseteq> {v}"
    by auto
  with all_in_singleton [of samples v] show ?thesis by simp
qed

lemma discard_outliers_replicate:
  "discard_outliers (replicate m v) p = replicate (length (discard_outliers (replicate m v) p)) v"
proof (rule all_in_singleton)
  have "set (discard_outliers (replicate m v) p) \<subseteq> set (replicate m v)"
    unfolding discard_outliers_def Let_def
    by (auto dest!: in_set_takeD in_set_dropD)
  then show "set (discard_outliers (replicate m v) p) \<subseteq> {v}" by auto
qed

lemma pick_pivots_replicate:
  assumes "\<forall>i < p. i * step < m"
  shows "pick_pivots (replicate m v) step p = Inr (replicate p v)"
proof -
  from assms have "pick_pivots (replicate m v) step p
                     = Inr (map (\<lambda>i. replicate m v ! (i * step)) [0..<p])"
    by (intro pick_pivots_ok) simp
  moreover have "map (\<lambda>i. replicate m v ! (i * step)) [0..<p] = map (\<lambda>i. v) [0..<p]"
    using assms by (intro map_cong) simp_all
  ultimately show ?thesis by (simp add: map_replicate_trivial)
qed

lemma distribute_replicate:
  "distribute p (replicate p v) (replicate n v) 0 (int n - 1)
     = Inr (replicate p [] @ [replicate n v])"
proof -
  have am: "pivots_at_most (replicate p v) v = p"
    by (simp add: pivots_at_most_def)
  have "sorted (replicate p v)" by simp
  moreover have "in_bounds (replicate n v) 0 (int n - 1)" by (simp add: in_bounds_def)
  ultimately have "distribute (length (replicate p v)) (replicate p v) (replicate n v) 0 (int n - 1)
     = Inr (map (\<lambda>j. filter (\<lambda>x. pivots_at_most (replicate p v) x = j)
                          (subrange (replicate n v) 0 (int n - 1))) [0..<length (replicate p v) + 1])"
    by (rule distribute_eq)
  moreover have "subrange (replicate n v) 0 (int n - 1) = replicate n v"
    using subrange_whole [of "replicate n v"] by simp
  moreover have "map (\<lambda>j. filter (\<lambda>x. pivots_at_most (replicate p v) x = j) (replicate n v)) [0..<p]
                 = map (\<lambda>j. []) [0..<p]"
    by (intro map_cong) (auto simp: am filter_empty_conv)
  ultimately show ?thesis
    by (simp add: am map_replicate_trivial)
qed

lemma all_equal_never_returns:
  assumes big: "12 < n"
  shows "alpayFractalSortAdvanced draws tie fuel (replicate n v) 0 (int n - 1) k = None"
proof (induction fuel arbitrary: k)
  case 0
  with big show ?case
    by (subst alpayFractalSortAdvanced.simps) (simp add: ALPAY_SMALL_THRESH_def)
next
  case (Suc fuel)
  define p where "p = pivot_count (int n)"
  define m where "m = pivot_sample_count p"
  define t where "t = length (discard_outliers (replicate m v) p)"
  have sz: "int n - 1 - 0 + 1 = int n" by simp
  have g: "gather_samples draws (replicate n v) 0 (int n) m [] k = Inr (replicate m v, k + m)"
    using big by (intro gather_replicate) simp
  have f1: "alpayTripleFixBidirectional (replicate m v) 0 (int m - 1) = Some (Inr (replicate m v))"
    by (rule fix_replicate)
  have d: "discard_outliers (replicate m v) p = replicate t v"
    unfolding t_def by (rule discard_outliers_replicate)
  have "length (replicate m v) = pivot_sample_count (pivot_count (int n))"
    by (simp add: m_def p_def)
  from stride_ok(2) [OF this]
  have "\<forall>i < p. i * pivot_step (replicate t v) p < t"
    by (simp add: p_def [symmetric] d)
  then have pk: "pick_pivots (replicate t v) (pivot_step (replicate t v) p) p = Inr (replicate p v)"
    by (rule pick_pivots_replicate)
  have f2: "alpayTripleSortPivotArray (replicate p v) = Some (Inr (replicate p v))"
    using fix_replicate [of p v] by (simp add: alpayTripleSortPivotArray_def)
  have ds: "distribute p (replicate p v) (replicate n v) 0 (int n - 1)
              = Inr (replicate p [] @ [replicate n v])"
    by (rule distribute_replicate)
  have "sort_buckets
          (\<lambda>bucket k. alpayFractalSortAdvanced draws tie fuel bucket 0 (int (length bucket) - 1) k)
          (replicate p [] @ replicate n v # []) (k + m) = None"
    using big by (intro sort_buckets_stuck) (simp_all add: Suc.IH)
  then have sb: "sort_buckets
          (\<lambda>bucket k. alpayFractalSortAdvanced draws tie fuel bucket 0 (int (length bucket) - 1) k)
          (replicate p [] @ [replicate n v]) (k + m) = None"
    by simp
  from big show ?case
    by (subst alpayFractalSortAdvanced.simps)
       (simp add: ALPAY_SMALL_THRESH_def Let_def bindR_def sz
          p_def [symmetric] m_def [symmetric] g f1 d pk f2 ds sb)
qed

section \<open>What the driver returns, when it returns\<close>

lemma foldE_append:
  "foldE f (xs @ ys) s = bindE (foldE f xs s) (foldE f ys)"
  by (induction xs arbitrary: s) (simp_all add: bindE_def split: sum.splits)

lemma copy_loop:
  assumes "0 \<le> start" "nat start + length mergedAll \<le> length arr"
  shows "m \<le> length mergedAll \<Longrightarrow>
     foldE (\<lambda>i arr. if in_vec arr (start + int i)
                     then Inr (arr[nat (start + int i) := mergedAll ! i])
                     else Inl OutOfRange)
           [0..<m] arr
     = Inr (take (nat start) arr @ take m mergedAll @ drop (nat start + m) arr)"
proof (induction m)
  case 0
  then show ?case by simp
next
  case (Suc m)
  let ?a = "take (nat start) arr @ take m mergedAll @ drop (nat start + m) arr"
  from Suc.prems assms have m: "m < length mergedAll" "nat start + m < length arr" by simp_all
  have la: "length ?a = length arr" using m assms by simp
  have iv: "in_vec ?a (start + int m)"
    using m assms by (simp add: in_vec_def la)
  have n: "nat (start + int m) = nat start + m"
    using assms by simp
  have lt: "length (take (nat start) arr) = nat start" "length (take m mergedAll) = m"
    using m assms by simp_all
  have dr: "drop (nat start + m) arr = arr ! (nat start + m) # drop (nat start + Suc m) arr"
    using m by (simp add: Cons_nth_drop_Suc)
  have "?a[nat start + m := mergedAll ! m]
        = take (nat start) arr @ take (Suc m) mergedAll @ drop (nat start + Suc m) arr"
    using m by (simp add: list_update_append lt dr take_Suc_conv_app_nth)
  with Suc iv show ?case
    by (simp add: foldE_append bindE_def n del: upt_Suc add: upt_Suc_append)
qed

lemma copy_back_eq:
  assumes "0 \<le> start" "nat start + length mergedAll \<le> length arr"
  shows "copy_back arr start mergedAll
         = Inr (take (nat start) arr @ mergedAll @ drop (nat start + length mergedAll) arr)"
  unfolding copy_back_def using copy_loop [OF assms, of "length mergedAll"] by simp


text \<open>What the driver owes for a whole vector: a sorted permutation of it.\<close>

definition sorts_whole :: "(int list \<Rightarrow> nat \<Rightarrow> (error + int list \<times> nat) option) \<Rightarrow> bool" where
  "sorts_whole sorter \<longleftrightarrow>
     (\<forall>bucket k r. sorter bucket k = Some r \<longrightarrow>
        (\<exists>bucket' k'. r = Inr (bucket', k') \<and> sorted bucket' \<and> mset bucket' = mset bucket))"

lemma sort_buckets_sound:
  assumes "sorts_whole sorter"
  shows "sort_buckets sorter buckets k = Some r \<Longrightarrow>
     \<exists>buckets' k'. r = Inr (buckets', k') \<and> (\<forall>b \<in> set buckets'. sorted b)
        \<and> mset (concat buckets') = mset (concat buckets)"
proof (induction buckets arbitrary: k r)
  case Nil
  then show ?case by auto
next
  case (Cons bucket buckets)
  show ?case
  proof (cases "int (length bucket) > 1")
    case True
    with Cons.prems obtain r1 where r1: "sorter bucket k = Some r1"
      by (auto simp: bindR_def split: option.splits)
    with assms obtain bucket' k1 where b: "r1 = Inr (bucket', k1)" "sorted bucket'"
      "mset bucket' = mset bucket"
      unfolding sorts_whole_def by blast
    with Cons.prems True r1 obtain r2 where r2: "sort_buckets sorter buckets k1 = Some r2"
      by (auto simp: bindR_def split: option.splits)
    from Cons.IH [OF r2] obtain buckets' k2 where bs: "r2 = Inr (buckets', k2)"
      "\<forall>b \<in> set buckets'. sorted b" "mset (concat buckets') = mset (concat buckets)"
      by blast
    from Cons.prems True r1 r2 b(1) bs(1) have "r = Inr (bucket' # buckets', k2)"
      by (simp add: bindR_def)
    with b bs show ?thesis by simp
  next
    case False
    then have short: "length bucket \<le> 1" by simp
    with Cons.prems obtain r2 where r2: "sort_buckets sorter buckets k = Some r2"
      by (auto simp: bindR_def split: option.splits)
    from Cons.IH [OF r2] obtain buckets' k2 where bs: "r2 = Inr (buckets', k2)"
      "\<forall>b \<in> set buckets'. sorted b" "mset (concat buckets') = mset (concat buckets)"
      by blast
    from Cons.prems False r2 bs(1) have "r = Inr (bucket # buckets', k2)"
      by (simp add: bindR_def)
    with bs sorted01 [OF short] show ?thesis by simp
  qed
qed

lemma distribute_mset:
  assumes "sorted pivots" "in_bounds arr start stop"
  shows "\<exists>buckets. distribute (length pivots) pivots arr start stop = Inr buckets
           \<and> mset (concat buckets) = mset (subrange arr start stop)"
proof -
  let ?xs = "subrange arr start stop"
  have "filter (\<lambda>x. pivots_at_most pivots x < length pivots + 1) ?xs = ?xs"
    using pivots_at_most_le [of pivots] by (simp add: less_Suc_eq_le)
  then have "mset (concat (map (\<lambda>j. filter (\<lambda>x. pivots_at_most pivots x = j) ?xs)
                              [0..<length pivots + 1])) = mset ?xs"
    using mset_concat_classes [of "pivots_at_most pivots" ?xs "length pivots + 1"] by simp
  with distribute_eq [OF assms] show ?thesis by blast
qed

lemma pivots_sorted:
  "\<exists>pivots'. alpayTripleSortPivotArray pivots = Some (Inr pivots')
      \<and> sorted pivots' \<and> length pivots' = length pivots"
proof -
  have "in_bounds pivots 0 (int (length pivots) - 1)" by (simp add: in_bounds_def)
  from fix_sorts [OF this]
  obtain pivots' where run: "alpayTripleFixBidirectional pivots 0 (int (length pivots) - 1) = Some (Inr pivots')"
    and len: "length pivots' = length pivots"
    and srt: "sorted (subrange pivots' 0 (int (length pivots) - 1))"
    by blast
  from len srt have "sorted pivots'"
    using subrange_whole [of pivots'] by simp
  with run len show ?thesis by (simp add: alpayTripleSortPivotArray_def)
qed


text \<open>
  Whenever the driver returns on a range within bounds, it returns a vector (no access was
  out of range) whose subrange is sorted and a permutation of the old one, the rest of the
  vector being as before. Nothing here says that it returns.
\<close>

lemma driver_small:
  assumes "stop - start + 1 \<le> ALPAY_SMALL_THRESH" "in_bounds arr start stop"
  shows "\<exists>arr'. alpayFractalSortAdvanced draws tie fuel arr start stop k = Some (Inr (arr', k))
           \<and> length arr' = length arr
           \<and> sorted (subrange arr' start stop)
           \<and> mset (subrange arr' start stop) = mset (subrange arr start stop)
           \<and> take (nat start) arr' = take (nat start) arr
           \<and> drop (nat (stop + 1)) arr' = drop (nat (stop + 1)) arr"
proof -
  from fix_sorts [OF assms(2)]
  obtain arr' where "alpayTripleFixBidirectional arr start stop = Some (Inr arr')"
    and "length arr' = length arr" "sorted (subrange arr' start stop)"
    "mset (subrange arr' start stop) = mset (subrange arr start stop)"
    "take (nat start) arr' = take (nat start) arr"
    "drop (nat (stop + 1)) arr' = drop (nat (stop + 1)) arr"
    by blast
  with assms(1) show ?thesis
    by (subst alpayFractalSortAdvanced.simps) (simp add: bindR_def)
qed

lemma driver_sound:
  "in_bounds arr start stop \<Longrightarrow>
   alpayFractalSortAdvanced draws tie fuel arr start stop k = Some r \<Longrightarrow>
   \<exists>arr' k'. r = Inr (arr', k')
      \<and> length arr' = length arr
      \<and> sorted (subrange arr' start stop)
      \<and> mset (subrange arr' start stop) = mset (subrange arr start stop)
      \<and> take (nat start) arr' = take (nat start) arr
      \<and> drop (nat (stop + 1)) arr' = drop (nat (stop + 1)) arr"
proof (induction fuel arbitrary: arr start stop k r)
  case 0
  show ?case
  proof (cases "stop - start + 1 \<le> ALPAY_SMALL_THRESH")
    case True
    from driver_small [OF True "0.prems"(1), of draws tie 0 k] "0.prems"(2)
    show ?thesis by auto
  next
    case False
    with "0.prems"(2) show ?thesis
      by (subst (asm) alpayFractalSortAdvanced.simps) simp
  qed
next
  case (Suc fuel)
  show ?case
  proof (cases "stop - start + 1 \<le> ALPAY_SMALL_THRESH")
    case True
    from driver_small [OF True Suc.prems(1), of draws tie "Suc fuel" k] Suc.prems(2)
    show ?thesis by auto
  next
    case False
    define sz where "sz = stop - start + 1"
    define p where "p = pivot_count sz"
    define m where "m = pivot_sample_count p"
    let ?sorter = "\<lambda>bucket k. alpayFractalSortAdvanced draws tie fuel bucket 0
                                  (int (length bucket) - 1) k"
    from False have big: "ALPAY_SMALL_THRESH < sz" and pos: "0 < sz"
      by (simp_all add: sz_def ALPAY_SMALL_THRESH_def)
    from Suc.prems(1) pos have rng: "0 \<le> start" "start \<le> stop" "stop < int (length arr)"
      by (simp_all add: in_bounds_def sz_def)
    from gather_samples_ok [OF Suc.prems(1) sz_def pos, of draws m "[]" k]
    obtain samples where g: "gather_samples draws arr start sz m [] k = Inr (samples, k + m)"
      and ls: "length samples = m"
      by auto
    have "in_bounds samples 0 (int (length samples) - 1)" by (simp add: in_bounds_def)
    from fix_sorts [OF this] ls
    obtain ordered where f1: "alpayTripleFixBidirectional samples 0 (int m - 1) = Some (Inr ordered)"
      and lo: "length ordered = m"
      by auto
    define trimmed where "trimmed = discard_outliers ordered p"
    define step where "step = pivot_step trimmed p"
    have "length ordered = pivot_sample_count (pivot_count sz)"
      by (simp add: lo m_def p_def)
    from stride_ok(2) [OF this] have "\<forall>i < p. i * step < length trimmed"
      by (simp add: p_def step_def trimmed_def)
    from pick_pivots_ok [OF this]
    obtain pivots0 where pk: "pick_pivots trimmed step p = Inr pivots0" and lp0: "length pivots0 = p"
      by simp
    from pivots_sorted [of pivots0] lp0
    obtain pivots where f2: "alpayTripleSortPivotArray pivots0 = Some (Inr pivots)"
      and sp: "sorted pivots" and lp: "length pivots = p"
      by auto
    from distribute_mset [OF sp Suc.prems(1)] lp
    obtain buckets where ds: "distribute p pivots arr start stop = Inr buckets"
      and mb: "mset (concat buckets) = mset (subrange arr start stop)"
      by auto
    have rest: "bindR (sort_buckets ?sorter buckets (k + m))
                  (\<lambda>(buckets, k).
                     bindR (Some (copy_back arr start (alpayMultiBucketMerge tie buckets [])))
                       (\<lambda>arr'. Some (Inr (arr', k)))) = Some r"
      using Suc.prems(2) False
      by (subst (asm) alpayFractalSortAdvanced.simps)
         (simp add: Let_def bindR_def sz_def [symmetric] p_def [symmetric] m_def [symmetric]
            g ls f1 trimmed_def [symmetric] step_def [symmetric] pk f2 ds)
    then obtain r1 where sb: "sort_buckets ?sorter buckets (k + m) = Some r1"
      by (auto simp: bindR_def split: option.splits)
    have "sorts_whole ?sorter"
      unfolding sorts_whole_def
    proof (intro allI impI)
      fix bucket k r
      assume run: "alpayFractalSortAdvanced draws tie fuel bucket 0 (int (length bucket) - 1) k = Some r"
      have "in_bounds bucket 0 (int (length bucket) - 1)" by (simp add: in_bounds_def)
      from Suc.IH [OF this run]
      obtain bucket' k' where b: "r = Inr (bucket', k')" "length bucket' = length bucket"
        "sorted (subrange bucket' 0 (int (length bucket) - 1))"
        "mset (subrange bucket' 0 (int (length bucket) - 1))
           = mset (subrange bucket 0 (int (length bucket) - 1))"
        by blast
      then have "sorted bucket'" "mset bucket' = mset bucket"
        using subrange_whole [of bucket'] subrange_whole [of bucket] by simp_all
      with b(1) show "\<exists>bucket' k'. r = Inr (bucket', k') \<and> sorted bucket' \<and> mset bucket' = mset bucket"
        by blast
    qed
    from sort_buckets_sound [OF this sb]
    obtain buckets' k2 where r1: "r1 = Inr (buckets', k2)"
      and sb': "\<forall>b \<in> set buckets'. sorted b"
      and mb': "mset (concat buckets') = mset (concat buckets)"
      by blast
    define mergedAll where "mergedAll = alpayMultiBucketMerge tie buckets' []"
    from merge_sorts [OF sb', of tie "[]"] mb' mb
    have mm: "mset mergedAll = mset (subrange arr start stop)" and sm: "sorted mergedAll"
      by (simp_all add: mergedAll_def)
    from mm have "length mergedAll = length (subrange arr start stop)"
      by (rule mset_eq_length)
    with rng have lm: "length mergedAll = nat (stop - start + 1)"
      by (auto simp: subrange_def)
    with rng have fits: "nat start + length mergedAll \<le> length arr" by linarith
    define arr' where
      "arr' = take (nat start) arr @ mergedAll @ drop (nat start + length mergedAll) arr"
    have cb: "copy_back arr start mergedAll = Inr arr'"
      unfolding arr'_def by (rule copy_back_eq [OF rng(1) fits])
    from rest sb r1 cb have r: "r = Inr (arr', k2)"
      by (simp add: bindR_def mergedAll_def [symmetric])
    have fr: "framed (take (nat start) arr) mergedAll start stop"
      using rng lm by (simp add: framed_def)
    have sub: "subrange arr' start stop = mergedAll"
      unfolding arr'_def by (rule subrange_framed [OF fr])
    have la: "length arr' = length arr"
      using fits by (simp add: arr'_def)
    have tk: "take (nat start) arr' = take (nat start) arr"
      using rng by (simp add: arr'_def)
    have "nat (stop + 1) = nat start + length mergedAll"
      using rng lm by linarith
    then have dp: "drop (nat (stop + 1)) arr' = drop (nat (stop + 1)) arr"
      using rng fits by (simp add: arr'_def)
    from r sub la tk dp mm sm show ?thesis by simp
  qed
qed


lemma driver_sound_whole:
  assumes "alpayFractalSortAdvanced draws tie fuel arr 0 (int (length arr) - 1) k = Some r"
  shows "\<exists>k'. r = Inr (sort arr, k')"
proof -
  have "in_bounds arr 0 (int (length arr) - 1)" by (simp add: in_bounds_def)
  from driver_sound [OF this assms]
  obtain arr' k' where r: "r = Inr (arr', k')" and "length arr' = length arr"
    and "sorted (subrange arr' 0 (int (length arr) - 1))"
    and "mset (subrange arr' 0 (int (length arr) - 1)) = mset (subrange arr 0 (int (length arr) - 1))"
    by blast
  then have "sorted arr'" "mset arr' = mset arr"
    using subrange_whole [of arr'] subrange_whole [of arr] by simp_all
  then have "sort arr = arr'"
    by (intro properties_for_sort) simp_all
  with r show ?thesis by simp
qed

lemma driver_sorted_input:
  assumes "sorted arr"
    and "alpayFractalSortAdvanced draws tie fuel arr 0 (int (length arr) - 1) k = Some r"
  shows "\<exists>k'. r = Inr (arr, k')"
  using driver_sound_whole [OF assms(2)] assms(1) by (simp add: sorted_sort_id)

text \<open>
  The vector of the repository's \<open>main\<close>, with one sequence of draws: two levels of
  recursion are enough, and 20 draws are made.
\<close>

lemma driver_demo:
  "alpayFractalSortAdvanced (\<lambda>n. 7 * n + 3) (\<lambda>n h. n) 2
     [18, 2, 12, 5, 29, 17, 4, 0, 19, 23, 1, 9, 7, 6, 59, 559, 342, 678, 231, 560,
      248, 2485, 2495, 2495, 586, 35, 788, 8, 976, 0, 668, 866, 765, 57, 43, 75, 8, 754, 74,
      75, 965, 86, 75578, 98] 0 43 0
   = Some (Inr ([0, 0, 1, 2, 4, 5, 6, 7, 8, 8, 9, 12, 17, 18, 19, 23, 29, 35, 43, 57, 59, 74,
                 75, 75, 86, 98, 231, 248, 342, 559, 560, 586, 668, 678, 754, 765, 788, 866,
                 965, 976, 2485, 2495, 2495, 75578], 20))"
  by code_simp

section \<open>The claims\<close>

subsection \<open>C1: the driver sorts\<close>

text \<open>
  Claim C1 says that \<open>alpayFractalSortAdvanced\<close> on the full range of any vector, with any
  draws, produces a non-decreasing permutation of it. Whenever the driver returns, it does
  (lemma \<open>driver_sound_whole\<close>). But on the vector of 13 values 5 no run of the driver,
  whatever the draws and the depth of recursion allowed, produces a sorted permutation of
  the input: it produces nothing.
\<close>

theorem equal_values_are_never_sorted:
  "\<not> (\<exists>fuel arr' k'.
         alpayFractalSortAdvanced draws tie fuel [5, 5, 5, 5, 5, 5, 5, 5, 5, 5, 5, 5, 5] 0 12 k
           = Some (Inr (arr', k'))
         \<and> sorted arr' \<and> mset arr' = mset [5, 5, 5, 5, 5, 5, 5, 5, 5, 5, 5, 5, 5])"
proof -
  have eq: "[5, 5, 5, 5, 5, 5, 5, 5, 5, 5, 5, 5, 5 :: int] = replicate 13 5"
    by (simp add: numeral_eq_Suc)
  have "alpayFractalSortAdvanced draws tie fuel (replicate 13 5) 0 (int 13 - 1) k = None" for fuel
    by (rule all_equal_never_returns) simp
  then show ?thesis by (simp add: eq)
qed

subsection \<open>C2: termination of the driver\<close>

text \<open>
  Claim C2 says that \<open>alpayFractalSortAdvanced\<close> ends on every vector, range and sequence
  of draws, each recursive call being on a strictly smaller range. On the vector of 13
  values 5 with the range \<open>(0, 12)\<close> it does not: the three pivots are 5, the distribution
  puts all 13 elements in the last bucket, the recursive call is on a range of the same
  size and contents, and the driver has no result, whatever the draws, the tie-break of the
  queue and the depth of recursion allowed.
\<close>

theorem recursion_on_equal_values_never_ends:
  "distribute 3 [5, 5, 5] (replicate 13 5) 0 12 = Inr [[], [], [], replicate 13 5]
   \<and> alpayFractalSortAdvanced draws tie fuel (replicate 13 5) 0 12 k = None"
proof -
  have "distribute 3 (replicate 3 5) (replicate 13 5) 0 (int 13 - 1)
          = Inr (replicate 3 [] @ [replicate 13 5])"
    by (rule distribute_replicate)
  then have d: "distribute 3 [5, 5, 5] (replicate 13 5) 0 12 = Inr [[], [], [], replicate 13 5]"
    by (simp add: numeral_3_eq_3)
  have "alpayFractalSortAdvanced draws tie fuel (replicate 13 5) 0 (int 13 - 1) k = None"
    by (rule all_equal_never_returns) simp
  with d show ?thesis by simp
qed

subsection \<open>C3: the stride of the pivot selection stays within the sample\<close>

text \<open>
  Claim C3. For every range of size above \<open>ALPAY_SMALL_THRESH\<close> within the vector's bounds
  and every sequence of draws: the sampling reads within bounds, the sorted sample after the
  optional outlier trim has at least \<open>pivotCount\<close> elements, every index \<open>i * step\<close> with
  \<open>i < pivotCount\<close> and \<open>step = max(1, samples.size() / pivotCount)\<close> is below its size,
  and the selection loop reads exactly those positions without an out-of-range access.
  (The bounds rest on \<open>pivotCount >= 2\<close> and on the guard of the trim alone, not on the
  values that the square root and \<open>cut\<close> take.)
\<close>

theorem pivot_stride_in_bounds:
  assumes big: "ALPAY_SMALL_THRESH < stop - start + 1" and ib: "in_bounds arr start stop"
  shows "\<exists>samples k' ordered.
           gather_samples draws arr start (stop - start + 1)
             (pivot_sample_count (pivot_count (stop - start + 1))) [] k = Inr (samples, k')
         \<and> alpayTripleFixBidirectional samples 0 (int (length samples) - 1) = Some (Inr ordered)
         \<and> (let pivotCount = pivot_count (stop - start + 1);
                 trimmed = discard_outliers ordered pivotCount;
                 step = pivot_step trimmed pivotCount
             in pivotCount \<le> length trimmed
                \<and> (\<forall>i < pivotCount. i * step < length trimmed)
                \<and> pick_pivots trimmed step pivotCount
                    = Inr (map (\<lambda>i. trimmed ! (i * step)) [0..<pivotCount]))"
proof -
  let ?sz = "stop - start + 1"
  let ?p = "pivot_count ?sz"
  from big have pos: "0 < ?sz" by (simp add: ALPAY_SMALL_THRESH_def)
  from gather_samples_ok [OF ib refl pos, of draws "pivot_sample_count ?p" "[]" k]
  obtain samples where g: "gather_samples draws arr start ?sz (pivot_sample_count ?p) [] k
                            = Inr (samples, k + pivot_sample_count ?p)"
    and len: "length samples = pivot_sample_count ?p"
    by auto
  have "in_bounds samples 0 (int (length samples) - 1)"
    by (simp add: in_bounds_def)
  from fix_sorts [OF this]
  obtain ordered where f: "alpayTripleFixBidirectional samples 0 (int (length samples) - 1) = Some (Inr ordered)"
    and len': "length ordered = length samples"
    by blast
  from len len' have l: "length ordered = pivot_sample_count ?p" by simp
  note s = stride_ok [OF l]
  from pick_pivots_ok [OF s(2)] s g f show ?thesis
    by (simp add: Let_def)
qed


theorem pivot_stride_in_bounds_witness:
  "ALPAY_SMALL_THRESH < 12 - 0 + 1
   \<and> in_bounds [12, 11, 10, 9, 8, 7, 6, 5, 4, 3, 2, 1, 0 :: int] 0 12
   \<and> (\<exists>samples k' ordered.
         gather_samples (\<lambda>n. 5 * n + 3) [12, 11, 10, 9, 8, 7, 6, 5, 4, 3, 2, 1, 0] 0 (12 - 0 + 1)
           (pivot_sample_count (pivot_count (12 - 0 + 1))) [] 0 = Inr (samples, k')
       \<and> alpayTripleFixBidirectional samples 0 (int (length samples) - 1) = Some (Inr ordered)
       \<and> (let pivotCount = pivot_count (12 - 0 + 1);
               trimmed = discard_outliers ordered pivotCount;
               step = pivot_step trimmed pivotCount
           in pivotCount \<le> length trimmed
              \<and> (\<forall>i < pivotCount. i * step < length trimmed)
              \<and> pick_pivots trimmed step pivotCount
                  = Inr (map (\<lambda>i. trimmed ! (i * step)) [0..<pivotCount])))
   \<and> gather_samples (\<lambda>n. 5 * n + 3) [12, 11, 10, 9, 8, 7, 6, 5, 4, 3, 2, 1, 0] 0 13 6 [] 0
       = Inr ([9, 4, 12, 7, 2, 10], 6)
   \<and> alpayTripleFixBidirectional [9, 4, 12, 7, 2, 10] 0 5 = Some (Inr [2, 4, 7, 9, 10, 12])
   \<and> discard_outliers [2, 4, 7, 9, 10, 12] 3 = [2, 4, 7, 9, 10, 12]
   \<and> pivot_step [2, 4, 7, 9, 10, 12] 3 = 2
   \<and> pick_pivots [2, 4, 7, 9, 10, 12] 2 3 = Inr [2, 7, 10]"
proof -
  have big: "ALPAY_SMALL_THRESH < 12 - 0 + 1"
    by (simp add: ALPAY_SMALL_THRESH_def)
  have ib: "in_bounds [12, 11, 10, 9, 8, 7, 6, 5, 4, 3, 2, 1, 0 :: int] 0 12"
    by (simp add: in_bounds_def)
  have g: "gather_samples (\<lambda>n. 5 * n + 3) [12, 11, 10, 9, 8, 7, 6, 5, 4, 3, 2, 1, 0] 0 13 6 [] 0
       = Inr ([9, 4, 12, 7, 2, 10], 6)"
    by code_simp
  have f: "alpayTripleFixBidirectional [9, 4, 12, 7, 2, 10] 0 5 = Some (Inr [2, 4, 7, 9, 10, 12])"
    by code_simp
  have d: "discard_outliers [2, 4, 7, 9, 10, 12] 3 = [2, 4, 7, 9, 10, 12]"
    by code_simp
  have s: "pivot_step [2, 4, 7, 9, 10, 12] 3 = 2"
    by code_simp
  have p: "pick_pivots [2, 4, 7, 9, 10, 12] 2 3 = Inr [2, 7, 10]"
    by code_simp
  from pivot_stride_in_bounds [OF big ib, of "\<lambda>n. 5 * n + 3" 0] big ib g f d s p
  show ?thesis by blast
qed

subsection \<open>C4: the merge of sorted buckets is their sorted union\<close>

text \<open>
  Claim C4. For every list of buckets in which each bucket is sorted ascending (no
  buckets, one bucket, empty buckets and duplicates included), and whatever item the
  priority queue puts on top among those of least value, \<open>alpayMultiBucketMerge\<close> leaves
  a destination whose length is the sum of the bucket lengths, whose elements are, as a
  multiset, those of all the buckets, and which is non-decreasing: it is the sorted
  concatenation of the buckets.
\<close>

theorem merge_is_sorted_union:
  assumes "\<forall>b \<in> set buckets. sorted b"
  shows "length (alpayMultiBucketMerge tie buckets dest) = sum_list (map length buckets)
         \<and> mset (alpayMultiBucketMerge tie buckets dest) = mset (concat buckets)
         \<and> sorted (alpayMultiBucketMerge tie buckets dest)
         \<and> alpayMultiBucketMerge tie buckets dest = sort (concat buckets)"
proof -
  note m = merge_sorts [OF assms, of tie dest]
  have "length (alpayMultiBucketMerge tie buckets dest) = length (concat buckets)"
    using m(1) by (rule mset_eq_length)
  then have l: "length (alpayMultiBucketMerge tie buckets dest) = sum_list (map length buckets)"
    by (simp add: length_concat)
  have "sort (concat buckets) = alpayMultiBucketMerge tie buckets dest"
    using m by (intro properties_for_sort) simp_all
  with l m show ?thesis by simp
qed

theorem merge_is_sorted_union_witness:
  "sorted [1, 4, 7 :: int] \<and> sorted [2, 3 :: int] \<and> sorted ([] :: int list) \<and> sorted [0, 9 :: int]
   \<and> alpayMultiBucketMerge (\<lambda>n h. n) [[1, 4, 7], [2, 3], [], [0, 9]] [5, 5] = [0, 1, 2, 3, 4, 7, 9]
   \<and> length (alpayMultiBucketMerge (\<lambda>n h. n) [[1, 4, 7], [2, 3], [], [0, 9]] [5, 5])
       = sum_list (map length [[1, 4, 7], [2, 3], [], [0, 9 :: int]])
   \<and> mset (alpayMultiBucketMerge (\<lambda>n h. n) [[1, 4, 7], [2, 3], [], [0, 9]] [5, 5])
       = mset (concat [[1, 4, 7], [2, 3], [], [0, 9]])"
proof -
  have srt: "\<forall>b \<in> set [[1, 4, 7], [2, 3], [], [0, 9 :: int]]. sorted b" by simp
  have run: "alpayMultiBucketMerge (\<lambda>n h. n) [[1, 4, 7], [2, 3], [], [0, 9]] [5, 5]
               = [0, 1, 2, 3, 4, 7, 9]"
    by code_simp
  from merge_is_sorted_union [OF srt, of "\<lambda>n h. n" "[5, 5]"] run show ?thesis
    by simp
qed

subsection \<open>C5: the fix pass sorts the range\<close>

text \<open>
  Claim C5. For every vector and every range \<open>(start, end)\<close> within its bounds,
  \<open>alpayTripleFixBidirectional\<close> returns, and the inclusive subrange is then sorted
  ascending and a permutation of its previous contents, with the vector's length and the
  elements outside the range as they were. When \<open>start >= end\<close> the vector is returned
  unchanged (for any range, within bounds or not).
\<close>

theorem fix_sorts_subrange:
  "(stop \<le> start \<longrightarrow> alpayTripleFixBidirectional arr start stop = Some (Inr arr))
   \<and> (in_bounds arr start stop \<longrightarrow>
        (\<exists>arr'. alpayTripleFixBidirectional arr start stop = Some (Inr arr')
           \<and> length arr' = length arr
           \<and> sorted (subrange arr' start stop)
           \<and> mset (subrange arr' start stop) = mset (subrange arr start stop)
           \<and> take (nat start) arr' = take (nat start) arr
           \<and> drop (nat (stop + 1)) arr' = drop (nat (stop + 1)) arr))"
proof (intro conjI impI)
  assume "stop \<le> start"
  then show "alpayTripleFixBidirectional arr start stop = Some (Inr arr)"
    by (simp add: alpayTripleFixBidirectional_def)
next
  assume "in_bounds arr start stop"
  then show "\<exists>arr'. alpayTripleFixBidirectional arr start stop = Some (Inr arr')
           \<and> length arr' = length arr
           \<and> sorted (subrange arr' start stop)
           \<and> mset (subrange arr' start stop) = mset (subrange arr start stop)
           \<and> take (nat start) arr' = take (nat start) arr
           \<and> drop (nat (stop + 1)) arr' = drop (nat (stop + 1)) arr"
    by (rule fix_sorts)
qed

theorem fix_sorts_subrange_witness:
  "(4::int) \<le> 4
   \<and> alpayTripleFixBidirectional [3, 1, 2] 4 4 = Some (Inr [3, 1, 2])
   \<and> in_bounds [9, 3, 1, 2, 0, 5, 4 :: int] 1 5
   \<and> alpayTripleFixBidirectional [9, 3, 1, 2, 0, 5, 4] 1 5 = Some (Inr [9, 0, 1, 2, 3, 5, 4])
   \<and> sorted (subrange [9, 0, 1, 2, 3, 5, 4 :: int] 1 5)
   \<and> mset (subrange [9, 0, 1, 2, 3, 5, 4 :: int] 1 5) = mset (subrange [9, 3, 1, 2, 0, 5, 4] 1 5)"
proof -
  have ib: "in_bounds [9, 3, 1, 2, 0, 5, 4 :: int] 1 5"
    by (simp add: in_bounds_def)
  have run: "alpayTripleFixBidirectional [9, 3, 1, 2, 0, 5, 4] 1 5 = Some (Inr [9, 0, 1, 2, 3, 5, 4])"
    by code_simp
  from fix_sorts_subrange [of 4 4 "[3, 1, 2]"]
  have noop: "alpayTripleFixBidirectional [3, 1, 2] 4 4 = Some (Inr [3, 1, 2])"
    by simp
  from fix_sorts_subrange [of 5 1 "[9, 3, 1, 2, 0, 5, 4]"] ib run
  have "sorted (subrange [9, 0, 1, 2, 3, 5, 4 :: int] 1 5)
        \<and> mset (subrange [9, 0, 1, 2, 3, 5, 4 :: int] 1 5) = mset (subrange [9, 3, 1, 2, 0, 5, 4] 1 5)"
    by simp
  with ib run noop show ?thesis by simp
qed

subsection \<open>C6: the loop of the fix pass ends\<close>

text \<open>
  Claim C6. For every vector and every range within its bounds, one forward and backward
  cycle of \<open>alpayTripleFixBidirectional\<close> either sets \<open>changed\<close> and leaves strictly
  fewer inversions in the subrange, or makes no swap (the vector is as before) and the loop
  exits; so the \<open>while\<close> loop ends with a vector, and the function returns one.
\<close>

theorem fix_loop_terminates:
  "in_bounds arr start stop \<Longrightarrow>
   (\<exists>arr' changed. fix_cycle start stop arr = Inr (arr', changed)
      \<and> (if changed
          then inversions (subrange arr' start stop) < inversions (subrange arr start stop)
          else arr' = arr))
   \<and> (\<exists>arr'. fix_loop start stop arr = Some (Inr arr'))
   \<and> (\<exists>arr'. alpayTripleFixBidirectional arr start stop = Some (Inr arr'))"
  using cycle_decreases [of arr start stop] loop_total [of arr start stop]
    fix_sorts [of arr start stop]
  by blast

theorem fix_loop_terminates_witness:
  "in_bounds [7, 6, 5, 4, 3, 2, 1 :: int] 0 6
   \<and> fix_cycle 0 6 [7, 6, 5, 4, 3, 2, 1] = Inr ([1, 2, 5, 4, 3, 6, 7], True)
   \<and> inversions (subrange [1, 2, 5, 4, 3, 6, 7] 0 6) = 3
   \<and> inversions (subrange [7, 6, 5, 4, 3, 2, 1] 0 6) = 21
   \<and> (\<exists>arr'. fix_loop 0 6 [7, 6, 5, 4, 3, 2, 1] = Some (Inr arr'))
   \<and> (\<exists>arr'. alpayTripleFixBidirectional [7, 6, 5, 4, 3, 2, 1] 0 6 = Some (Inr arr'))"
proof -
  have ib: "in_bounds [7, 6, 5, 4, 3, 2, 1 :: int] 0 6"
    by (simp add: in_bounds_def)
  have c: "fix_cycle 0 6 [7, 6, 5, 4, 3, 2, 1] = Inr ([1, 2, 5, 4, 3, 6, 7], True)"
    by code_simp
  have i1: "inversions (subrange [1, 2, 5, 4, 3, 6, 7] 0 6) = 3"
    by code_simp
  have i2: "inversions (subrange [7, 6, 5, 4, 3, 2, 1] 0 6) = 21"
    by code_simp
  from fix_loop_terminates [OF ib] ib c i1 i2 show ?thesis
    by blast
qed

subsection \<open>C7: the buckets partition the range by pivot intervals\<close>

text \<open>
  Claim C7. For every range within the vector's bounds and every ascending pivot sequence of
  length \<open>pivotCount\<close>, the distribution step succeeds with \<open>pivotCount + 1\<close> buckets;
  bucket \<open>j\<close> holds, in their order, exactly the elements of the range for which the
  number of pivots less than or equal to the element is \<open>j\<close> (so each element is in
  exactly one bucket); the buckets together are a permutation of the range; and every
  element of bucket \<open>j\<close> is at least \<open>pivots[j-1]\<close> (for \<open>j > 0\<close>) and below
  \<open>pivots[j]\<close> (for \<open>j < pivotCount\<close>).
\<close>

theorem partition_classes:
  assumes srt: "sorted pivots" and len: "length pivots = pivotCount"
    and ib: "in_bounds arr start stop"
  shows "\<exists>buckets. distribute pivotCount pivots arr start stop = Inr buckets
           \<and> length buckets = pivotCount + 1
           \<and> (\<forall>j \<le> pivotCount.
                 buckets ! j = filter (\<lambda>x. pivots_at_most pivots x = j) (subrange arr start stop))
           \<and> mset (concat buckets) = mset (subrange arr start stop)
           \<and> (\<forall>j \<le> pivotCount. \<forall>x \<in> set (buckets ! j).
                 (0 < j \<longrightarrow> pivots ! (j - 1) \<le> x) \<and> (j < pivotCount \<longrightarrow> x < pivots ! j))"
proof -
  let ?xs = "subrange arr start stop"
  let ?bs = "map (\<lambda>j. filter (\<lambda>x. pivots_at_most pivots x = j) ?xs) [0..<pivotCount + 1]"
  have run: "distribute pivotCount pivots arr start stop = Inr ?bs"
    using distribute_eq [OF srt ib] len by simp
  have l: "length ?bs = pivotCount + 1" by simp
  have nth: "?bs ! j = filter (\<lambda>x. pivots_at_most pivots x = j) ?xs" if "j \<le> pivotCount" for j
    using that by (simp del: upt_Suc)
  have "filter (\<lambda>x. pivots_at_most pivots x < pivotCount + 1) ?xs = ?xs"
    using pivots_at_most_le [of pivots] len by (simp add: less_Suc_eq_le)
  then have ms: "mset (concat ?bs) = mset ?xs"
    using mset_concat_classes [of "pivots_at_most pivots" ?xs "pivotCount + 1"] by simp
  have bnd: "(0 < j \<longrightarrow> pivots ! (j - 1) \<le> x) \<and> (j < pivotCount \<longrightarrow> x < pivots ! j)"
    if "j \<le> pivotCount" "x \<in> set (?bs ! j)" for j x
    using that pivots_at_most_bounds [OF srt, of x j] len by (simp add: nth del: upt_Suc)
  from run l nth ms bnd show ?thesis by blast
qed

theorem partition_classes_witness:
  "sorted [2, 7, 10 :: int] \<and> length [2, 7, 10 :: int] = 3
   \<and> in_bounds [12, 11, 10, 9, 8, 7, 6, 5, 4, 3, 2, 1, 0 :: int] 2 11
   \<and> distribute 3 [2, 7, 10] [12, 11, 10, 9, 8, 7, 6, 5, 4, 3, 2, 1, 0] 2 11
       = Inr [[1], [6, 5, 4, 3, 2], [9, 8, 7], [10]]
   \<and> mset (concat [[1], [6, 5, 4, 3, 2], [9, 8, 7], [10 :: int]])
       = mset (subrange [12, 11, 10, 9, 8, 7, 6, 5, 4, 3, 2, 1, 0] 2 11)"
proof -
  have srt: "sorted [2, 7, 10 :: int]" by simp
  have len: "length [2, 7, 10 :: int] = 3" by simp
  have ib: "in_bounds [12, 11, 10, 9, 8, 7, 6, 5, 4, 3, 2, 1, 0 :: int] 2 11"
    by (simp add: in_bounds_def)
  have run: "distribute 3 [2, 7, 10] [12, 11, 10, 9, 8, 7, 6, 5, 4, 3, 2, 1, 0] 2 11
       = Inr [[1], [6, 5, 4, 3, 2], [9, 8, 7], [10]]"
    by code_simp
  from partition_classes [OF srt len ib] run
  have "mset (concat [[1], [6, 5, 4, 3, 2], [9, 8, 7], [10 :: int]])
       = mset (subrange [12, 11, 10, 9, 8, 7, 6, 5, 4, 3, 2, 1, 0] 2 11)"
    by auto
  with srt len ib run show ?thesis by blast
qed

subsection \<open>C8: the driver on a sorted vector\<close>

text \<open>
  Claim C8 says that \<open>alpayFractalSortAdvanced\<close> on the full range of an already sorted
  vector, with any draws, yields the same vector. Whenever the driver returns on a sorted
  vector, it does (lemma \<open>driver_sorted_input\<close>). But the vector of 13 values 0 is sorted,
  and no run of the driver on it yields it back.
\<close>

theorem sorted_equal_values_are_not_returned:
  "sorted (replicate 13 (0::int))
   \<and> \<not> (\<exists>fuel k'. alpayFractalSortAdvanced draws tie fuel (replicate 13 0) 0 12 k
                      = Some (Inr (replicate 13 0, k')))"
proof -
  have "alpayFractalSortAdvanced draws tie fuel (replicate 13 0) 0 (int 13 - 1) k = None" for fuel
    by (rule all_equal_never_returns) simp
  then show ?thesis by simp
qed

subsection \<open>C9: on a small range the driver is the fix pass\<close>

text \<open>
  Claim C9. For every vector and every range of size \<open>end - start + 1\<close> at most
  \<open>ALPAY_SMALL_THRESH\<close>, \<open>alpayFractalSortAdvanced\<close> gives exactly the outcome of
  \<open>alpayTripleFixBidirectional\<close> on that vector and range (the same vector, or the same
  failure), whatever the draws and the fuel, and it makes no draw.
\<close>

theorem small_range_is_fix_pass:
  "stop - start + 1 \<le> ALPAY_SMALL_THRESH \<Longrightarrow>
   map_option (map_sum id fst) (alpayFractalSortAdvanced draws tie fuel arr start stop k)
     = alpayTripleFixBidirectional arr start stop
   \<and> map_option (map_sum id snd) (alpayFractalSortAdvanced draws tie fuel arr start stop k)
     = map_option (map_sum id (\<lambda>_. k)) (alpayTripleFixBidirectional arr start stop)"
  by (auto simp: alpayFractalSortAdvanced.simps bindR_def split: option.splits sum.splits)

theorem small_range_is_fix_pass_witness:
  "(2::int) - 0 + 1 \<le> ALPAY_SMALL_THRESH
   \<and> map_option (map_sum id fst)
        (alpayFractalSortAdvanced (\<lambda>n. n) (\<lambda>n h. 0) 0 [3, 1, 2] 0 2 0)
     = alpayTripleFixBidirectional [3, 1, 2] 0 2
   \<and> alpayTripleFixBidirectional [3, 1, 2] 0 2 = Some (Inr [1, 2, 3])"
proof -
  have small: "(2::int) - 0 + 1 \<le> ALPAY_SMALL_THRESH"
    by (simp add: ALPAY_SMALL_THRESH_def)
  have run: "alpayTripleFixBidirectional [3, 1, 2] 0 2 = Some (Inr [1, 2, 3])"
    by code_simp
  from small_range_is_fix_pass [OF small, of "\<lambda>n. n" "\<lambda>n h. 0" 0 "[3, 1, 2]" 0] small run
  show ?thesis by simp
qed

subsection \<open>C10: the merge does not depend on the destination's prior contents\<close>

text \<open>
  Claim C10. For every list of buckets and any two initial contents of the destination
  vector, \<open>alpayMultiBucketMerge\<close> leaves the same contents in the destination: it is
  cleared before anything is appended.
\<close>

theorem merge_ignores_prior_dest:
  "alpayMultiBucketMerge tie buckets dest1 = alpayMultiBucketMerge tie buckets dest2"
  by (simp add: alpayMultiBucketMerge_def vec_clear_def)

end
